theory Spec2Isabelle
  imports Main "HOL-Library.Word"
begin

unbundle bit_operations_syntax

section \<open>Data model of csim.c\<close>

text \<open>
  \<^verbatim>\<open>typedef unsigned long long int mem_addr_t;\<close> is a 64-bit word.  The counters
  \<^verbatim>\<open>hit_count\<close>, \<^verbatim>\<open>miss_count\<close> and \<^verbatim>\<open>eviction_count\<close> are C \<^verbatim>\<open>int\<close>s: 32-bit
  signed words, \<^verbatim>\<open>++\<close> is \<open>+ 1\<close> on the word.  The geometry globals \<^verbatim>\<open>s\<close>,
  \<^verbatim>\<open>b\<close>, \<^verbatim>\<open>E\<close>, \<^verbatim>\<open>S\<close> are only compared, decremented towards 1 and used as
  shift counts, so they are kept as integers; every place where the C arithmetic on
  them has a width (the mask, the conversion of the set index to \<^verbatim>\<open>int\<close>) is written on
  words below.
\<close>

type_synonym mem_addr_t = "64 word"

text \<open>
  \<^verbatim>\<open>struct cache_line { char valid; mem_addr_t tag; struct cache_line *next; }\<close>.
  The field \<^verbatim>\<open>valid\<close> only ever holds 0 (written by \<^verbatim>\<open>initCache\<close>) or 1 (written
  by \<^verbatim>\<open>accessData\<close>) and is only compared with 0 and 1: it is a \<open>bool\<close>.  The
  \<^verbatim>\<open>next\<close> pointers chain the lines of one set, \<^verbatim>\<open>cache[i]\<close> pointing at the
  first line and the last line having \<^verbatim>\<open>next == NULL\<close>.

  The functions of the first sections work on a set as the list of its lines in chain
  order.  A pointer into the chain is then an index into the list: \<^verbatim>\<open>p->next\<close> is
  index \<open>Suc i\<close>, which is \<^verbatim>\<open>NULL\<close> when \<open>Suc i\<close> is not below the length.  The
  section ``The chains in memory'' has the same functions on the pointers and the heap,
  and the two levels are proved to agree.
\<close>

record cache_line_t =
  valid :: bool
  tag :: mem_addr_t

type_synonym cache_set_t = "cache_line_t list"
type_synonym cache_t = "cache_set_t list"

text \<open>
  The globals of the program.  The fields \<open>cfg_s\<close>, \<open>cfg_b\<close>, \<open>cfg_E\<close>, \<open>cfg_S\<close>
  are the globals \<^verbatim>\<open>s\<close>, \<^verbatim>\<open>b\<close>, \<^verbatim>\<open>E\<close>, \<^verbatim>\<open>S\<close>.
\<close>

record globals =
  cfg_s :: int
  cfg_b :: int
  cfg_E :: int
  cfg_S :: int
  cache :: cache_t
  hit_count :: "32 word"
  miss_count :: "32 word"
  eviction_count :: "32 word"

text \<open>
  What C leaves undefined is an error value of the model: a shift by a negative count or
  by the width of the type or more, a read through a pointer that is \<^verbatim>\<open>NULL\<close>, an
  index outside the \<^verbatim>\<open>cache\<close> array, the conversion to \<^verbatim>\<open>int\<close> of a
  \<^verbatim>\<open>double\<close> that does not fit.  \<open>Loops_forever\<close> stands for a loop that does
  not end.
\<close>

datatype error =
  Undefined_shift | Null_dereference | Index_out_of_bounds | Undefined_conversion | Loops_forever

section \<open>Address decomposition (accessData, lines 148 to 159)\<close>

text \<open>
  \<^verbatim>\<open>mem_addr_t mask = ((1 << s) - 1) << b;\<close>
  The literal \<^verbatim>\<open>1\<close> is an \<^verbatim>\<open>int\<close>, so both shifts and the subtraction are done on
  32 bits, and the result is converted to 64 bits by sign extension.  A left shift
  whose mathematical result does not fit the \<^verbatim>\<open>int\<close> keeps the low 32 bits, the
  two's complement result (what gcc and clang produce; ISO C leaves it undefined).
\<close>

definition set_mask :: "int \<Rightarrow> int \<Rightarrow> error + mem_addr_t" where
  "set_mask s b =
     (if 0 \<le> s \<and> s < 32 \<and> 0 \<le> b \<and> b < 32
      then Inr (scast (push_bit (nat b) (push_bit (nat s) (1 :: 32 word) - 1)))
      else Inl Undefined_shift)"

text \<open>
  \<^verbatim>\<open>mem_addr_t m = mask & addr;  int s_bits = m >> b;  mem_addr_t t_bits = addr >> (s+b);\<close>
  The conversion of \<^verbatim>\<open>m >> b\<close> to \<^verbatim>\<open>int\<close> keeps the low 32 bits, read as signed.
  The result is the pair \<open>(s_bits, t_bits)\<close>.
\<close>

definition decode :: "int \<Rightarrow> int \<Rightarrow> mem_addr_t \<Rightarrow> error + (int \<times> mem_addr_t)" where
  "decode s b addr =
     (case set_mask s b of
        Inl e \<Rightarrow> Inl e
      | Inr mask_bits \<Rightarrow>
          let m = mask_bits AND addr;
              s_bits = sint (ucast (drop_bit (nat b) m) :: 32 word);
              t_bits = drop_bit (nat (s + b)) addr
          in Inr (s_bits, t_bits))"

section \<open>initCache\<close>

definition empty_line :: cache_line_t where
  "empty_line = \<lparr>valid = False, tag = 0\<rparr>"

text \<open>
  \<^verbatim>\<open>S = pow(2,s)\<close> converts a \<^verbatim>\<open>double\<close> to \<^verbatim>\<open>int\<close>: the value is exact for
  \<open>0 \<le> s \<le> 30\<close>, it is truncated to 0 for a negative \<open>s\<close>, and it does not fit for
  \<open>31 \<le> s\<close>.  Every set gets its first line unconditionally and one more for each
  \<open>j\<close> with \<open>1 \<le> j < E\<close>; all lines have \<^verbatim>\<open>valid = 0\<close> and \<^verbatim>\<open>tag = 0\<close>.
  \<^verbatim>\<open>malloc\<close> is taken to succeed.  The counters are not touched.
\<close>

definition initCache :: "globals \<Rightarrow> error + globals" where
  "initCache g =
     (if 31 \<le> cfg_s g then Inl Undefined_conversion
      else let S = (if cfg_s g < 0 then 0 else 2 ^ nat (cfg_s g))
           in Inr (g\<lparr>cfg_S := S,
                     cache := replicate (nat S) (empty_line # replicate (nat (cfg_E g - 1)) empty_line)\<rparr>))"

section \<open>accessData\<close>

text \<open>
  Steps 1 to 6 of the hit branch unlink the line \<^verbatim>\<open>line->next\<close> (index \<open>j\<close>) and
  make it the head of the chain, in front of the former head.
\<close>

definition move_to_front :: "nat \<Rightarrow> 'a list \<Rightarrow> 'a list" where
  "move_to_front j xs = xs ! j # take j xs @ drop (Suc j) xs"

text \<open>
  The search loop \<^verbatim>\<open>while(!match && e > 1)\<close>.  \<open>i\<close> is the position of \<^verbatim>\<open>line\<close>
  and \<open>e\<close> the loop counter.  The loop reads \<^verbatim>\<open>(line->next)->tag\<close> without a test
  for \<^verbatim>\<open>NULL\<close>.  The result is \<open>Some\<close> of the reordered set on a match and
  \<open>None\<close> when the loop ends with \<^verbatim>\<open>match == 0\<close>.
\<close>

function hit_loop :: "mem_addr_t \<Rightarrow> cache_set_t \<Rightarrow> nat \<Rightarrow> int \<Rightarrow> error + cache_set_t option" where
  "hit_loop t_bits xs i e =
     (if 1 < e then
        (if Suc i < length xs then
           (if t_bits = tag (xs ! Suc i) \<and> valid (xs ! Suc i)
            then Inr (Some (move_to_front (Suc i) xs))
            else hit_loop t_bits xs (Suc i) (e - 1))
         else Inl Null_dereference)
      else Inr None)"
  by pat_completeness auto
termination
  by (relation "measure (\<lambda>(t_bits, xs, i, e). nat e)") auto

declare hit_loop.simps [simp del]

text \<open>
  The scan of the miss branch,
  \<^verbatim>\<open>while(e && check->next != NULL && (check->next)->valid == 1 && (check->next)->next != NULL)\<close>,
  entered with \<open>e = 1\<close>.  \<open>i\<close> is the position of \<^verbatim>\<open>check\<close>.
\<close>

function scan_open :: "cache_set_t \<Rightarrow> nat \<Rightarrow> nat" where
  "scan_open xs i =
     (if Suc i < length xs \<and> valid (xs ! Suc i) \<and> Suc (Suc i) < length xs
      then scan_open xs (Suc i) else i)"
  by pat_completeness auto
termination
  by (relation "measure (\<lambda>(xs, i). length xs - i)") auto

declare scan_open.simps [simp del]

text \<open>
  The miss branch, on a chain that has a first line.  The result is the new chain and whether
  \<^verbatim>\<open>eviction_count\<close> was incremented.  The four cases are the four branches of the
  source, in its order:
  \<^item> head invalid: the head is filled in place;
  \<^item> \<^verbatim>\<open>check->next\<close> invalid: it is filled, unlinked and made the head;
  \<^item> \<^verbatim>\<open>check->next == NULL\<close>: \<^verbatim>\<open>check\<close> is overwritten in place, an eviction;
  \<^item> otherwise \<^verbatim>\<open>check->next\<close> is overwritten and made the head, and
    \<^verbatim>\<open>check->next = NULL\<close> cuts the chain after \<^verbatim>\<open>check\<close>, an eviction.
\<close>

definition miss_fill :: "mem_addr_t \<Rightarrow> cache_set_t \<Rightarrow> cache_set_t \<times> bool" where
  "miss_fill t_bits xs =
     (let new = \<lparr>valid = True, tag = t_bits\<rparr> in
      if \<not> valid (xs ! 0) then (xs[0 := new], False)
      else
        let c = scan_open xs 0 in
        if Suc c < length xs \<and> \<not> valid (xs ! Suc c)
        then (new # take (Suc c) xs @ drop (Suc (Suc c)) xs, False)
        else if \<not> Suc c < length xs
        then (xs[c := new], True)
        else (new # take (Suc c) xs, True))"

text \<open>
  \<^verbatim>\<open>accessData\<close>.  The index \<^verbatim>\<open>s_bits\<close> must lie inside the \<^verbatim>\<open>cache\<close> array and
  the set must have a head line, which \<^verbatim>\<open>line->tag\<close> reads.  A match on the head
  only counts the hit; a match found by the loop also reorders the chain.
\<close>

definition accessData :: "mem_addr_t \<Rightarrow> globals \<Rightarrow> error + globals" where
  "accessData addr g =
     (case decode (cfg_s g) (cfg_b g) addr of
        Inl e \<Rightarrow> Inl e
      | Inr (s_bits, t_bits) \<Rightarrow>
          if s_bits < 0 \<or> int (length (cache g)) \<le> s_bits then Inl Index_out_of_bounds
          else
            let xs = cache g ! nat s_bits in
            if xs = [] then Inl Null_dereference
            else if t_bits = tag (xs ! 0) \<and> valid (xs ! 0)
            then Inr (g\<lparr>hit_count := hit_count g + 1\<rparr>)
            else
              (case hit_loop t_bits xs 0 (cfg_E g) of
                 Inl e \<Rightarrow> Inl e
               | Inr (Some ys) \<Rightarrow>
                   Inr (g\<lparr>cache := (cache g)[nat s_bits := ys], hit_count := hit_count g + 1\<rparr>)
               | Inr None \<Rightarrow>
                   let (ys, evicted) = miss_fill t_bits xs in
                   Inr (g\<lparr>cache := (cache g)[nat s_bits := ys],
                         miss_count := miss_count g + 1,
                         eviction_count := (if evicted then eviction_count g + 1 else eviction_count g)\<rparr>)))"

text \<open>A sequence of calls of \<^verbatim>\<open>accessData\<close>, in order, stopping at the first undefined one.\<close>

fun accessData_seq :: "mem_addr_t list \<Rightarrow> globals \<Rightarrow> error + globals" where
  "accessData_seq [] g = Inr g"
| "accessData_seq (a # as) g =
     (case accessData a g of Inl e \<Rightarrow> Inl e | Inr g' \<Rightarrow> accessData_seq as g')"

section \<open>replayTrace\<close>

text \<open>
  \<^verbatim>\<open>fgets(buf, n, fp)\<close> belongs to the C library.  It reads characters from the
  stream until \<open>n - 1\<close> of them are read, or a newline is read (and kept), or the
  stream ends; it returns \<^verbatim>\<open>NULL\<close> when the stream ends before any character.
  \<open>fgets_read k stream\<close> is the string read when at most \<open>k\<close> characters may be, with
  the rest of the stream; \<open>fgets n stream\<close> is \<open>None\<close> for \<^verbatim>\<open>NULL\<close>.
\<close>

fun fgets_read :: "nat \<Rightarrow> string \<Rightarrow> string \<times> string" where
  "fgets_read 0 stream = ([], stream)"
| "fgets_read (Suc n) [] = ([], [])"
| "fgets_read (Suc n) (c # stream) =
     (if c = CHR ''\<newline>'' then ([c], stream)
      else (case fgets_read n stream of (piece, rest) \<Rightarrow> (c # piece, rest)))"

definition fgets :: "nat \<Rightarrow> string \<Rightarrow> (string \<times> string) option" where
  "fgets n stream = (if stream = [] then None else Some (fgets_read (n - 1) stream))"

text \<open>
  The strings that the successive calls \<^verbatim>\<open>fgets(buf, 1000, trace_fp)\<close> of the loop of
  \<^verbatim>\<open>replayTrace\<close> return on a file of the given content, up to the call that returns
  \<^verbatim>\<open>NULL\<close>.  Each is a non-empty piece of the file of at most 999 characters that ends
  at a newline when one comes first: a line of the file longer than that is returned
  in several pieces.
\<close>

function trace_reads :: "string \<Rightarrow> string list" where
  "trace_reads stream =
     (case fgets 1000 stream of
        None \<Rightarrow> []
      | Some (piece, rest) \<Rightarrow> piece # trace_reads rest)"
  by pat_completeness auto
termination
proof (relation "measure length")
  show "wf (measure length)" by simp
next
  fix stream :: string and x2 piece rest
  assume a: "fgets 1000 stream = Some x2" "(piece, rest) = x2"
  have shorter: "length (snd (fgets_read n cs)) \<le> length cs" for n cs
    by (induction n cs rule: fgets_read.induct) (auto split: prod.splits)
  from a obtain c cs where s: "stream = c # cs" and r: "fgets_read 999 (c # cs) = (piece, rest)"
    by (cases stream) (simp_all add: fgets_def split: if_splits)
  have step: "length (snd (fgets_read (Suc k) (c # cs))) \<le> length cs" for k
    using shorter [of k cs] by (auto split: prod.splits)
  have e: "(999 :: nat) = Suc 998" by simp
  from step [of 998] r [unfolded e] have "length rest \<le> length cs" by simp
  with s show "(rest, stream) \<in> measure length" by simp
qed

declare trace_reads.simps [simp del]

text \<open>
  \<^verbatim>\<open>replayTrace\<close> below takes the trace file as the list of the strings that the calls
  of \<^verbatim>\<open>fgets\<close> return (\<open>trace_reads\<close> of its content).  \<^verbatim>\<open>fgets\<close> writes the
  string and a terminating NUL at the start of \<^verbatim>\<open>buf\<close> and leaves the rest of the array
  as it was, so the array is part of the loop state.
\<close>

definition NUL :: char where
  "NUL = CHR 0x00"

definition fgets_store :: "string \<Rightarrow> string \<Rightarrow> string" where
  "fgets_store line buf = line @ NUL # drop (Suc (length line)) buf"

text \<open>The C string that starts at \<^verbatim>\<open>buf + n\<close>.\<close>

definition c_string_at :: "nat \<Rightarrow> string \<Rightarrow> string" where
  "c_string_at n buf = takeWhile (\<lambda>c. c \<noteq> NUL) (drop n buf)"

text \<open>
  \<^verbatim>\<open>sscanf(buf+3, "%llx,%u", &addr, &len)\<close> belongs to the C library.  Its effect on
  \<^verbatim>\<open>addr\<close> is a parameter \<open>scan\<close> of the model: \<open>scan str = Some a\<close> when the
  conversion \<^verbatim>\<open>%llx\<close> succeeds on \<open>str\<close> and stores \<open>a\<close>, and \<open>None\<close> when it
  fails and \<^verbatim>\<open>addr\<close> keeps its value.  \<^verbatim>\<open>len\<close> is never read.  The echo printed
  under \<^verbatim>\<open>verbosity\<close> changes no variable and is left out.

  One iteration of the \<^verbatim>\<open>while\<close> loop, on the locals \<open>(buf, addr)\<close> and the globals.
\<close>

definition replay_line ::
  "(string \<Rightarrow> mem_addr_t option) \<Rightarrow> string \<Rightarrow> string \<times> mem_addr_t \<times> globals \<Rightarrow>
     error + string \<times> mem_addr_t \<times> globals" where
  "replay_line scan line = (\<lambda>(buf0, addr0, g).
     let buf = fgets_store line buf0 in
     if buf ! 1 = CHR ''S'' \<or> buf ! 1 = CHR ''L'' \<or> buf ! 1 = CHR ''M'' then
       let addr = (case scan (c_string_at 3 buf) of None \<Rightarrow> addr0 | Some a \<Rightarrow> a) in
       (case accessData addr g of
          Inl e \<Rightarrow> Inl e
        | Inr g1 \<Rightarrow>
            if buf ! 1 = CHR ''M'' then
              (case accessData addr g1 of
                 Inl e \<Rightarrow> Inl e
               | Inr g2 \<Rightarrow> Inr (buf, addr, g2))
            else Inr (buf, addr, g1))
     else Inr (buf, addr0, g))"

fun replay_lines ::
  "(string \<Rightarrow> mem_addr_t option) \<Rightarrow> string list \<Rightarrow> string \<times> mem_addr_t \<times> globals \<Rightarrow>
     error + string \<times> mem_addr_t \<times> globals" where
  "replay_lines scan [] st = Inr st"
| "replay_lines scan (line # rest) st =
     (case replay_line scan line st of Inl e \<Rightarrow> Inl e | Inr st' \<Rightarrow> replay_lines scan rest st')"

text \<open>
  How a run ends other than by returning: a call of \<^verbatim>\<open>exit\<close> with a status, or
  behaviour that C leaves undefined.
\<close>

datatype stop = Exit int | Undefined error

text \<open>
  \<^verbatim>\<open>replayTrace\<close>.  \<open>file\<close> is \<open>None\<close> when \<^verbatim>\<open>fopen\<close> fails (the message goes to
  \<^verbatim>\<open>stderr\<close> and the program exits with status 1).  \<open>buf_init\<close> is the content of
  the uninitialised array \<^verbatim>\<open>buf\<close>; \<^verbatim>\<open>addr\<close> starts at 0.
\<close>

definition replayTrace ::
  "(string \<Rightarrow> mem_addr_t option) \<Rightarrow> string \<Rightarrow> string list option \<Rightarrow> globals \<Rightarrow> stop + globals" where
  "replayTrace scan buf_init file g =
     (case file of
        None \<Rightarrow> Inl (Exit 1)
      | Some lines \<Rightarrow>
          (case replay_lines scan lines (buf_init, 0, g) of
             Inl e \<Rightarrow> Inl (Undefined e)
           | Inr (buf, addr, g') \<Rightarrow> Inr g'))"

text \<open>
  A reading of \<^verbatim>\<open>%llx\<close> for the concrete instances below: leading blanks, then at least one
  hexadecimal digit, the digits accumulated in 64 bits.  Signs and a \<^verbatim>\<open>0x\<close> prefix
  are not read.
\<close>

definition hex_digit :: "char \<Rightarrow> nat option" where
  "hex_digit c =
     (let n = (of_char c :: nat) in
      if 48 \<le> n \<and> n \<le> 57 then Some (n - 48)
      else if 97 \<le> n \<and> n \<le> 102 then Some (n - 87)
      else if 65 \<le> n \<and> n \<le> 70 then Some (n - 55)
      else None)"

fun hex_digits :: "mem_addr_t \<Rightarrow> string \<Rightarrow> mem_addr_t" where
  "hex_digits acc [] = acc"
| "hex_digits acc (c # cs) =
     (case hex_digit c of None \<Rightarrow> acc | Some d \<Rightarrow> hex_digits (16 * acc + of_nat d) cs)"

definition scan_hex :: "string \<Rightarrow> mem_addr_t option" where
  "scan_hex str =
     (case dropWhile (\<lambda>c. c = CHR '' '') str of
        [] \<Rightarrow> None
      | c # cs \<Rightarrow> (if hex_digit c = None then None else Some (hex_digits 0 (c # cs))))"

section \<open>main\<close>

text \<open>
  The command line as \<^verbatim>\<open>getopt\<close> reports it, one element for each call that does
  not return -1: the option found, with the value of \<^verbatim>\<open>atoi(optarg)\<close> for
  \<^verbatim>\<open>-s\<close>, \<^verbatim>\<open>-E\<close>, \<^verbatim>\<open>-b\<close> and \<^verbatim>\<open>optarg\<close> for \<^verbatim>\<open>-t\<close>.  \<open>Opt_other\<close> is what
  reaches \<^verbatim>\<open>default:\<close> (an unknown option or a missing argument).
\<close>

datatype cli_opt = Opt_s int | Opt_E int | Opt_b int | Opt_t string | Opt_v | Opt_h | Opt_other

text \<open>What the program does that can be observed from outside, in order.\<close>

datatype event =
    Print_missing_argument
  | Print_usage
  | Cache_constructed
  | Print_open_error
  | Print_summary "32 word" "32 word" "32 word"
  | Exited int
  | Undefined_behaviour error

text \<open>The variables that the option loop sets.\<close>

record options =
  opt_verbosity :: int
  opt_s :: int
  opt_E :: int
  opt_b :: int
  opt_trace_file :: "string option"

definition no_options :: options where
  "no_options = \<lparr>opt_verbosity = 0, opt_s = 0, opt_E = 0, opt_b = 0, opt_trace_file = None\<rparr>"

text \<open>
  \<^verbatim>\<open>printUsage\<close> prints the usage text and then calls \<^verbatim>\<open>exit(0)\<close> itself, so no
  statement after a call of \<^verbatim>\<open>printUsage\<close> is reached.
\<close>

definition printUsage :: "event list" where
  "printUsage = [Print_usage, Exited 0]"

text \<open>The option loop: \<open>Inl\<close> when the program ends inside it.\<close>

fun parse_options :: "cli_opt list \<Rightarrow> options \<Rightarrow> event list + options" where
  "parse_options [] opts = Inr opts"
| "parse_options (Opt_s n # rest) opts = parse_options rest (opts\<lparr>opt_s := n\<rparr>)"
| "parse_options (Opt_E n # rest) opts = parse_options rest (opts\<lparr>opt_E := n\<rparr>)"
| "parse_options (Opt_b n # rest) opts = parse_options rest (opts\<lparr>opt_b := n\<rparr>)"
| "parse_options (Opt_t f # rest) opts = parse_options rest (opts\<lparr>opt_trace_file := Some f\<rparr>)"
| "parse_options (Opt_v # rest) opts = parse_options rest (opts\<lparr>opt_verbosity := 1\<rparr>)"
| "parse_options (Opt_h # rest) opts = Inl printUsage"
| "parse_options (Opt_other # rest) opts = Inl printUsage"

text \<open>
  \<^verbatim>\<open>main\<close>.  \<open>fopen_trace\<close> gives the file of a name, as the strings that the calls
  of \<^verbatim>\<open>fgets\<close> return on it (\<open>trace_reads\<close> of its content), and \<open>None\<close> when it
  cannot be opened.  The counters start at 0, as the globals are initialised.
\<close>

definition main ::
  "(string \<Rightarrow> mem_addr_t option) \<Rightarrow> string \<Rightarrow> (string \<Rightarrow> string list option) \<Rightarrow> cli_opt list \<Rightarrow>
     event list" where
  "main scan buf_init fopen_trace argv =
     (case parse_options argv no_options of
        Inl evs \<Rightarrow> evs
      | Inr opts \<Rightarrow>
          if opt_s opts = 0 \<or> opt_E opts = 0 \<or> opt_b opts = 0 \<or> opt_trace_file opts = None
          then Print_missing_argument # printUsage
          else
            (case initCache \<lparr>cfg_s = opt_s opts, cfg_b = opt_b opts, cfg_E = opt_E opts, cfg_S = 0,
                             cache = [], hit_count = 0, miss_count = 0, eviction_count = 0\<rparr> of
               Inl e \<Rightarrow> [Undefined_behaviour e]
             | Inr g \<Rightarrow>
                 Cache_constructed #
                 (case replayTrace scan buf_init (fopen_trace (the (opt_trace_file opts))) g of
                    Inl (Exit n) \<Rightarrow> [Print_open_error, Exited n]
                  | Inl (Undefined e) \<Rightarrow> [Undefined_behaviour e]
                  | Inr g' \<Rightarrow>
                      [Print_summary (hit_count g') (miss_count g') (eviction_count g'), Exited 0])))"

section \<open>Notions used to state the properties\<close>

text \<open>
  The content of a set as the specification sees it: the tags of its valid lines, in chain
  order, the most recently used first.
\<close>

definition valid_tags :: "cache_set_t \<Rightarrow> mem_addr_t list" where
  "valid_tags xs = map tag (filter valid xs)"

text \<open>
  The classify step of the specification (section 4.2), written from its words on a set
  of capacity \<open>E\<close> held as the list of its tags, the most recently used first: a tag that
  is found is moved to the front; a tag that is not found is put at the front, after the
  last tag has been removed if the set already holds \<open>E\<close> tags.
\<close>

datatype outcome = Hit | MissClean | MissEvict

definition lru_access :: "nat \<Rightarrow> mem_addr_t \<Rightarrow> mem_addr_t list \<Rightarrow> outcome \<times> mem_addr_t list" where
  "lru_access E t ts =
     (if t \<in> set ts then (Hit, t # remove1 t ts)
      else if length ts < E then (MissClean, t # ts)
      else (MissEvict, t # butlast ts))"

text \<open>
  The part of \<^verbatim>\<open>accessData\<close> that works on the selected set, taken out of the
  definition above for the proofs (lemma \<open>accessData_access_set\<close> shows that it is the
  same): the new chain, whether \<^verbatim>\<open>hit_count\<close> was incremented (otherwise
  \<^verbatim>\<open>miss_count\<close> was) and whether \<^verbatim>\<open>eviction_count\<close> was.
\<close>

definition access_set :: "int \<Rightarrow> mem_addr_t \<Rightarrow> cache_set_t \<Rightarrow> error + cache_set_t \<times> bool \<times> bool" where
  "access_set E t xs =
     (if xs = [] then Inl Null_dereference
      else if t = tag (xs ! 0) \<and> valid (xs ! 0) then Inr (xs, True, False)
      else (case hit_loop t xs 0 E of
              Inl e \<Rightarrow> Inl e
            | Inr (Some ys) \<Rightarrow> Inr (ys, True, False)
            | Inr None \<Rightarrow> (let (ys, evicted) = miss_fill t xs in Inr (ys, False, evicted))))"

definition count_access :: "bool \<times> bool \<Rightarrow> globals \<Rightarrow> globals" where
  "count_access = (\<lambda>(hit, evicted) g.
     g\<lparr>hit_count := (if hit then hit_count g + 1 else hit_count g),
       miss_count := (if hit then miss_count g else miss_count g + 1),
       eviction_count := (if evicted then eviction_count g + 1 else eviction_count g)\<rparr>)"

text \<open>
  The shape that \<^verbatim>\<open>initCache\<close> gives the cache for an associativity of at least 1 and
  that \<^verbatim>\<open>accessData\<close> keeps: every chain has exactly \<open>E\<close> lines.
\<close>

definition chains_ok :: "globals \<Rightarrow> bool" where
  "chains_ok g \<longleftrightarrow> 1 \<le> cfg_E g \<and> (\<forall>xs \<in> set (cache g). int (length xs) = cfg_E g)"

text \<open>
  The invariant of the specification (section 3): a set has at most \<open>E\<close> valid lines, and
  no two valid lines of a set have the same tag.
\<close>

definition set_invariant :: "int \<Rightarrow> cache_set_t \<Rightarrow> bool" where
  "set_invariant E xs \<longleftrightarrow> int (length (filter valid xs)) \<le> E \<and> distinct (valid_tags xs)"

definition cache_invariant :: "globals \<Rightarrow> bool" where
  "cache_invariant g \<longleftrightarrow> (\<forall>xs \<in> set (cache g). set_invariant (cfg_E g) xs)"

text \<open>
  A recognised access record: a line whose second character is \<^verbatim>\<open>L\<close>, \<^verbatim>\<open>S\<close> or
  \<^verbatim>\<open>M\<close>.  It stands for one access, or two for \<^verbatim>\<open>M\<close>.
\<close>

definition recognised :: "string \<Rightarrow> bool" where
  "recognised line \<longleftrightarrow>
     1 < length line \<and> (line ! 1 = CHR ''L'' \<or> line ! 1 = CHR ''S'' \<or> line ! 1 = CHR ''M'')"

definition accesses_of :: "string \<Rightarrow> nat" where
  "accesses_of line = (if recognised line then (if line ! 1 = CHR ''M'' then 2 else 1) else 0)"

definition serviced_accesses :: "string list \<Rightarrow> nat" where
  "serviced_accesses lines = sum_list (map accesses_of lines)"

text \<open>
  The first line of a file: its characters up to the first newline, which belongs to the
  line, or all of them when the file has no newline; and the rest of the file.
\<close>

definition first_line :: "string \<Rightarrow> string \<times> string" where
  "first_line stream =
     (case dropWhile (\<lambda>c. c \<noteq> CHR ''\<newline>'') stream of
        [] \<Rightarrow> (stream, [])
      | c # rest \<Rightarrow> (takeWhile (\<lambda>c. c \<noteq> CHR ''\<newline>'') stream @ [c], rest))"

text \<open>The globals as the program starts with them, for a given geometry.\<close>

definition start_globals :: "int \<Rightarrow> int \<Rightarrow> int \<Rightarrow> globals" where
  "start_globals s E b =
     \<lparr>cfg_s = s, cfg_b = b, cfg_E = E, cfg_S = 0, cache = [],
      hit_count = 0, miss_count = 0, eviction_count = 0\<rparr>"

text \<open>
  Concrete states for the instances below, all with \<open>s = 1\<close>, \<open>b = 1\<close>, \<open>E = 2\<close>
  (two sets of two lines, blocks of two bytes): the cache as \<^verbatim>\<open>initCache\<close> leaves it,
  a cache whose set 0 is full (tag 1 used last, tag 2 before it), and that cache after
  an access to the address 12 (set 0, tag 3).
\<close>

definition example_fresh :: globals where
  "example_fresh =
     \<lparr>cfg_s = 1, cfg_b = 1, cfg_E = 2, cfg_S = 2,
      cache = [[empty_line, empty_line], [empty_line, empty_line]],
      hit_count = 0, miss_count = 0, eviction_count = 0\<rparr>"

definition example_full :: globals where
  "example_full =
     \<lparr>cfg_s = 1, cfg_b = 1, cfg_E = 2, cfg_S = 2,
      cache = [[\<lparr>valid = True, tag = 1\<rparr>, \<lparr>valid = True, tag = 2\<rparr>], [empty_line, empty_line]],
      hit_count = 0, miss_count = 0, eviction_count = 0\<rparr>"

definition example_evicted :: globals where
  "example_evicted =
     \<lparr>cfg_s = 1, cfg_b = 1, cfg_E = 2, cfg_S = 2,
      cache = [[\<lparr>valid = True, tag = 3\<rparr>, \<lparr>valid = True, tag = 1\<rparr>], [empty_line, empty_line]],
      hit_count = 0, miss_count = 1, eviction_count = 1\<rparr>"

text \<open>
  The states on which every call of \<^verbatim>\<open>accessData\<close> is defined: the chains have their
  \<open>E\<close> lines, the shifts of the address decomposition stay inside an \<^verbatim>\<open>int\<close>, and
  the array has its \<open>2 ^ s\<close> sets.
\<close>

definition well_formed :: "globals \<Rightarrow> bool" where
  "well_formed g \<longleftrightarrow>
     chains_ok g \<and> 0 \<le> cfg_s g \<and> 0 \<le> cfg_b g \<and> cfg_s g + cfg_b g \<le> 31 \<and>
     length (cache g) = 2 ^ nat (cfg_s g)"

text \<open>
  The value of \<^verbatim>\<open>addr\<close> after the \<^verbatim>\<open>sscanf\<close> of an iteration that read \<open>line\<close>
  into the array \<open>buf\<close>.
\<close>

definition parsed_addr :: "(string \<Rightarrow> mem_addr_t option) \<Rightarrow> string \<Rightarrow> string \<Rightarrow> mem_addr_t \<Rightarrow> mem_addr_t" where
  "parsed_addr scan line buf addr =
     (case scan (c_string_at 3 (fgets_store line buf)) of None \<Rightarrow> addr | Some a \<Rightarrow> a)"

text \<open>
  A trace of three lines for the instances below: a load, an instruction fetch and a
  modify; and the state it leaves when replayed on \<open>example_fresh\<close>.
\<close>

definition example_trace :: "string list" where
  "example_trace = ['' L 0,1\<newline>'', ''I 4,1\<newline>'', '' M 8,1\<newline>'']"

definition example_replayed :: globals where
  "example_replayed =
     \<lparr>cfg_s = 1, cfg_b = 1, cfg_E = 2, cfg_S = 2,
      cache = [[\<lparr>valid = True, tag = 2\<rparr>, \<lparr>valid = True, tag = 0\<rparr>], [empty_line, empty_line]],
      hit_count = 1, miss_count = 2, eviction_count = 0\<rparr>"

text \<open>
  A file of one line of 1007 characters: the letter \<^verbatim>\<open>I\<close>, 998 blanks and a load of
  the address 16 (set 0, tag 4).
\<close>

definition example_long_line :: string where
  "example_long_line = CHR ''I'' # replicate 998 CHR '' '' @ '' L 10,1\<newline>''"

section \<open>The chains in memory\<close>

text \<open>
  The functions above work on each set as the list of its lines.  This section gives
  \<^verbatim>\<open>initCache\<close> and \<^verbatim>\<open>accessData\<close> once more, statement by statement on the linked
  chains themselves, and the relation between the two levels; the section
  ``The chains in memory compute what the lists compute'' proves that the list level
  is what the pointer level does.

  A \<^verbatim>\<open>cache_line_t *\<close> is \<open>None\<close> for \<^verbatim>\<open>NULL\<close> or \<open>Some a\<close> for the address
  \<open>a\<close> of a line; the heap gives the line stored at each address; \<^verbatim>\<open>cache\<close> is the
  array of the head pointers.  \<^verbatim>\<open>malloc(sizeof(cache_line_t))\<close> returns the address
  \<open>m_brk\<close>, which no earlier call has returned, and moves \<open>m_brk\<close> on.
\<close>

type_synonym ptr = "nat option"

record node =
  n_valid :: bool
  n_tag :: mem_addr_t
  n_next :: ptr

type_synonym heap = "nat \<Rightarrow> node"

record memory =
  m_s :: int
  m_b :: int
  m_E :: int
  m_S :: int
  m_cache :: "ptr list"
  m_heap :: heap
  m_brk :: nat
  m_hit_count :: "32 word"
  m_miss_count :: "32 word"
  m_eviction_count :: "32 word"

text \<open>
  \<^verbatim>\<open>initCache\<close>.  \<open>init_lines\<close> is the inner loop
  \<^verbatim>\<open>for(int j = 1; j < E; j++)\<close> with \<open>n\<close> iterations to go: it allocates a line,
  links it behind \<^verbatim>\<open>prev\<close> and clears it.  \<open>init_sets\<close> is the outer loop with
  \<open>n\<close> sets to go: it allocates and clears the first line of the set, stores it in the
  array, and runs the inner loop.
\<close>

fun init_lines :: "nat \<Rightarrow> nat \<Rightarrow> heap \<times> nat \<Rightarrow> heap \<times> nat" where
  "init_lines 0 prev (h, brk) = (h, brk)"
| "init_lines (Suc n) prev (h, brk) =
     (let line = brk;
          h1 = h(prev := (h prev)\<lparr>n_next := Some line\<rparr>);
          h2 = h1(line := \<lparr>n_valid = False, n_tag = 0, n_next = None\<rparr>)
      in init_lines n line (h2, Suc brk))"

fun init_sets :: "nat \<Rightarrow> int \<Rightarrow> heap \<times> nat \<Rightarrow> ptr list \<times> heap \<times> nat" where
  "init_sets 0 E (h, brk) = ([], h, brk)"
| "init_sets (Suc n) E (h, brk) =
     (let set = brk;
          h1 = h(set := \<lparr>n_valid = False, n_tag = 0, n_next = None\<rparr>);
          (h2, brk2) = init_lines (nat (E - 1)) set (h1, Suc brk);
          (sets, h3, brk3) = init_sets n E (h2, brk2)
      in (Some set # sets, h3, brk3))"

definition initCache_mem :: "memory \<Rightarrow> error + memory" where
  "initCache_mem m =
     (if 31 \<le> m_s m then Inl Undefined_conversion
      else let S = (if m_s m < 0 then 0 else 2 ^ nat (m_s m));
               (sets, h, brk) = init_sets (nat S) (m_E m) (m_heap m, m_brk m)
           in Inr (m\<lparr>m_S := S, m_cache := sets, m_heap := h, m_brk := brk\<rparr>))"

text \<open>
  The search loop of \<^verbatim>\<open>accessData\<close> on the chain.  On a match the result is the pair of
  \<^verbatim>\<open>line\<close> and \<^verbatim>\<open>line->next\<close>, which the six statements of the hit branch then use.
\<close>

function hit_loop_mem :: "mem_addr_t \<Rightarrow> heap \<Rightarrow> nat \<Rightarrow> int \<Rightarrow> error + (nat \<times> nat) option" where
  "hit_loop_mem t_bits h line e =
     (if 1 < e then
        (case n_next (h line) of
           None \<Rightarrow> Inl Null_dereference
         | Some nx \<Rightarrow>
             if t_bits = n_tag (h nx) \<and> n_valid (h nx) then Inr (Some (line, nx))
             else hit_loop_mem t_bits h nx (e - 1))
      else Inr None)"
  by pat_completeness auto
termination
  by (relation "measure (\<lambda>(t_bits, h, line, e). nat e)") auto

declare hit_loop_mem.simps [simp del]

text \<open>
  Statements 1 to 6 of the hit branch, on the heap and on \<^verbatim>\<open>cache[s_bits]\<close> (the
  second component):
  \<^verbatim>\<open>next_first = line->next; after_next_first = (line->next)->next;
  line->next = after_next_first; curr_first = cache[s_bits];
  cache[s_bits] = next_first; next_first->next = curr_first;\<close>
\<close>

definition move_hit_line :: "nat \<Rightarrow> nat \<Rightarrow> heap \<times> ptr \<Rightarrow> heap \<times> ptr" where
  "move_hit_line line next_first = (\<lambda>(h, first).
     let after_next_first = n_next (h next_first);
         h1 = h(line := (h line)\<lparr>n_next := after_next_first\<rparr>);
         curr_first = first;
         first1 = Some next_first;
         h2 = h1(next_first := (h1 next_first)\<lparr>n_next := curr_first\<rparr>)
     in (h2, first1))"

text \<open>
  The scan of the miss branch.  Nothing in the loop bounds the number of its iterations
  (on a cyclic chain of valid lines it would not end), so it is a partial function:
  \<open>None\<close> is the loop that does not end.
\<close>

partial_function (option) scan_mem :: "heap \<Rightarrow> nat \<Rightarrow> nat option" where
  "scan_mem h check =
     (case n_next (h check) of
        None \<Rightarrow> Some check
      | Some nx \<Rightarrow>
          if n_valid (h nx) \<and> n_next (h nx) \<noteq> None then scan_mem h nx else Some check)"

declare scan_mem.simps [code]

text \<open>
  The miss branch on the heap and \<^verbatim>\<open>cache[s_bits]\<close>, entered with
  \<^verbatim>\<open>check = cache[s_bits]\<close>; the pointer assignments are in the order of the source.
  The source reads \<^verbatim>\<open>check->next\<close> again in each statement; here it is read once, as
  \<open>nx\<close>, since no statement in between writes to the line \<^verbatim>\<open>check\<close>: the lines
  written are \<^verbatim>\<open>check->next\<close>, which is not \<^verbatim>\<open>check\<close> because \<^verbatim>\<open>check\<close> is valid
  and \<^verbatim>\<open>check->next\<close> is not (second branch) or because \<^verbatim>\<open>check->next\<close> has no
  successor while \<^verbatim>\<open>check\<close> has one (last branch).  The result also tells whether
  \<^verbatim>\<open>eviction_count\<close> was incremented.
\<close>

definition miss_mem :: "mem_addr_t \<Rightarrow> heap \<times> nat \<Rightarrow> ((heap \<times> ptr) \<times> bool) option" where
  "miss_mem t_bits = (\<lambda>(h, first).
     if \<not> n_valid (h first)
     then Some ((h(first := (h first)\<lparr>n_tag := t_bits, n_valid := True\<rparr>), Some first), False)
     else
       (case scan_mem h first of
          None \<Rightarrow> None
        | Some check \<Rightarrow>
            (case n_next (h check) of
               Some nx \<Rightarrow>
                 if \<not> n_valid (h nx) then
                   (let after_next = n_next (h nx);
                        curr_first = Some first;
                        first1 = Some nx;
                        h1 = h(nx := (h nx)\<lparr>n_next := curr_first\<rparr>);
                        h2 = h1(nx := (h1 nx)\<lparr>n_tag := t_bits\<rparr>);
                        h3 = h2(nx := (h2 nx)\<lparr>n_valid := True\<rparr>);
                        h4 = h3(check := (h3 check)\<lparr>n_next := after_next\<rparr>)
                    in Some ((h4, first1), False))
                 else
                   (let h1 = h(nx := (h nx)\<lparr>n_tag := t_bits\<rparr>);
                        h2 = h1(nx := (h1 nx)\<lparr>n_valid := True\<rparr>);
                        curr_first = Some first;
                        h3 = h2(nx := (h2 nx)\<lparr>n_next := curr_first\<rparr>);
                        first1 = Some nx;
                        h4 = h3(check := (h3 check)\<lparr>n_next := None\<rparr>)
                    in Some ((h4, first1), True))
             | None \<Rightarrow>
                 Some ((h(check := (h check)\<lparr>n_tag := t_bits, n_valid := True\<rparr>), Some first), True))))"

text \<open>The body of \<^verbatim>\<open>accessData\<close> from \<^verbatim>\<open>cache_set_t line = cache[s_bits]\<close> on.\<close>

definition access_set_mem :: "int \<Rightarrow> mem_addr_t \<Rightarrow> heap \<times> ptr \<Rightarrow> error + (heap \<times> ptr) \<times> bool \<times> bool" where
  "access_set_mem E t_bits = (\<lambda>(h, first).
     case first of
       None \<Rightarrow> Inl Null_dereference
     | Some line \<Rightarrow>
         if t_bits = n_tag (h line) \<and> n_valid (h line) then Inr ((h, first), True, False)
         else
           (case hit_loop_mem t_bits h line E of
              Inl e \<Rightarrow> Inl e
            | Inr (Some (prev, next_first)) \<Rightarrow>
                Inr (move_hit_line prev next_first (h, first), True, False)
            | Inr None \<Rightarrow>
                (case miss_mem t_bits (h, line) of
                   None \<Rightarrow> Inl Loops_forever
                 | Some (hp, evicted) \<Rightarrow> Inr (hp, False, evicted))))"

definition accessData_mem :: "mem_addr_t \<Rightarrow> memory \<Rightarrow> error + memory" where
  "accessData_mem addr m =
     (case decode (m_s m) (m_b m) addr of
        Inl e \<Rightarrow> Inl e
      | Inr (s_bits, t_bits) \<Rightarrow>
          if s_bits < 0 \<or> int (length (m_cache m)) \<le> s_bits then Inl Index_out_of_bounds
          else
            (case access_set_mem (m_E m) t_bits (m_heap m, m_cache m ! nat s_bits) of
               Inl e \<Rightarrow> Inl e
             | Inr ((h, first), hit, evicted) \<Rightarrow>
                 Inr (m\<lparr>m_cache := (m_cache m)[nat s_bits := first], m_heap := h,
                       m_hit_count := (if hit then m_hit_count m + 1 else m_hit_count m),
                       m_miss_count := (if hit then m_miss_count m else m_miss_count m + 1),
                       m_eviction_count :=
                         (if evicted then m_eviction_count m + 1 else m_eviction_count m)\<rparr>)))"

fun accessData_mem_seq :: "mem_addr_t list \<Rightarrow> memory \<Rightarrow> error + memory" where
  "accessData_mem_seq [] m = Inr m"
| "accessData_mem_seq (a # as) m =
     (case accessData_mem a m of Inl e \<Rightarrow> Inl e | Inr m' \<Rightarrow> accessData_mem_seq as m')"

text \<open>
  \<open>seg h p as q\<close>: following \<^verbatim>\<open>next\<close> from the pointer \<open>p\<close> visits the addresses
  \<open>as\<close> in order and arrives at \<open>q\<close>.  A chain is a segment that arrives at
  \<^verbatim>\<open>NULL\<close>.  \<open>lines_at\<close> reads the lines at a list of addresses, and
  \<open>set_rep h p as xs\<close> says that the chain from \<open>p\<close> consists of the distinct
  addresses \<open>as\<close> and holds the lines \<open>xs\<close>.
\<close>

fun seg :: "heap \<Rightarrow> ptr \<Rightarrow> nat list \<Rightarrow> ptr \<Rightarrow> bool" where
  "seg h p [] q \<longleftrightarrow> p = q"
| "seg h p (a # as) q \<longleftrightarrow> p = Some a \<and> seg h (n_next (h a)) as q"

definition lines_at :: "heap \<Rightarrow> nat list \<Rightarrow> cache_set_t" where
  "lines_at h as = map (\<lambda>a. \<lparr>valid = n_valid (h a), tag = n_tag (h a)\<rparr>) as"

definition set_rep :: "heap \<Rightarrow> ptr \<Rightarrow> nat list \<Rightarrow> cache_set_t \<Rightarrow> bool" where
  "set_rep h p as xs \<longleftrightarrow> seg h p as None \<and> distinct as \<and> xs = lines_at h as"

text \<open>
  A memory represents a list-level state when the scalar globals agree, every entry of
  the array heads a chain that holds the lines of the corresponding list, and the chains
  of different sets share no address.
\<close>

definition represents :: "memory \<Rightarrow> nat list list \<Rightarrow> globals \<Rightarrow> bool" where
  "represents m pss g \<longleftrightarrow>
     cfg_s g = m_s m \<and> cfg_b g = m_b m \<and> cfg_E g = m_E m \<and> cfg_S g = m_S m \<and>
     hit_count g = m_hit_count m \<and> miss_count g = m_miss_count m \<and>
     eviction_count g = m_eviction_count m \<and>
     length pss = length (m_cache m) \<and> length (cache g) = length (m_cache m) \<and>
     (\<forall>i < length pss. set_rep (m_heap m) (m_cache m ! i) (pss ! i) (cache g ! i)) \<and>
     (\<forall>i < length pss. \<forall>j < length pss. i \<noteq> j \<longrightarrow> set (pss ! i) \<inter> set (pss ! j) = {})"

section \<open>Properties of the address decomposition\<close>

lemma mask32_eq: "push_bit b (push_bit s (1 :: 32 word) - 1) = push_bit b (mask s)"
  by (simp add: mask_eq_exp_minus_1 push_bit_eq_mult)

lemma scast_mask: 
  assumes "s + b \<le> 31"
  shows "(scast (push_bit b (mask s :: 32 word)) :: 64 word) = push_bit b (mask s)"
proof (rule bit_word_eqI)
  fix n assume "n < LENGTH(64)"
  then show "bit (scast (push_bit b (mask s :: 32 word)) :: 64 word) n = bit (push_bit b (mask s) :: 64 word) n"
    using assms
    by (auto simp add: bit_simps min_def)
qed

lemma sbits_eq:
  assumes "s + b \<le> 31"
  shows "drop_bit b (push_bit b (mask s) AND (addr :: 64 word)) = take_bit s (drop_bit b addr)"
  using assms by - (rule bit_word_eqI, auto simp add: bit_simps)

lemma sint_small:
  assumes "s \<le> 31"
  shows "sint (ucast (take_bit s (w :: 64 word)) :: 32 word) = uint (take_bit s w)"
proof -
  have lt: "uint (take_bit s w) < 2 ^ s"
    by (simp add: unsigned_take_bit_eq)
  have "(2::int) ^ s \<le> 2 ^ 31" using assms by (intro power_increasing) auto
  with lt have lt31: "uint (take_bit s w) < 2 ^ 31" by linarith
  have ge: "- (2 ^ 31) \<le> uint (take_bit s w)"
  proof -
    have "0 \<le> uint (take_bit s w)" by simp
    moreover have "- (2 ^ 31) \<le> (0::int)" by simp
    ultimately show ?thesis by (rule order_trans [rotated])
  qed
  have u: "uint (ucast (take_bit s w) :: 32 word) = uint (take_bit s w)"
    using lt31 by (simp add: unsigned_ucast_eq take_bit_int_eq_self)
  have "sint (ucast (take_bit s w) :: 32 word) = signed_take_bit 31 (uint (take_bit s w))"
    by (simp add: sint_uint u)
  also have "\<dots> = uint (take_bit s w)"
    using ge lt31 by (rule signed_take_bit_int_eq_self)
  finally show ?thesis .
qed

lemma decode_in_range:
  assumes "0 \<le> s" "0 \<le> b" "s + b \<le> 31"
  shows "decode s b addr = Inr (uint (take_bit (nat s) (drop_bit (nat b) addr)), drop_bit (nat (s + b)) addr)"
proof -
  have nb: "nat s + nat b \<le> 31" "nat s \<le> 31" using assms by linarith+
  have m: "set_mask s b = Inr (push_bit (nat b) (mask (nat s)))"
    using assms nb unfolding set_mask_def mask32_eq by (simp add: scast_mask)
  show ?thesis
    unfolding decode_def m Let_def sum.case sbits_eq [OF nb(1)] sint_small [OF nb(2)] ..
qed

lemma uint_index: "uint (take_bit s (drop_bit b (addr :: 64 word))) = (uint addr div 2 ^ b) mod 2 ^ s"
  unfolding unsigned_take_bit_eq unsigned_drop_bit_eq bintr_uint [OF order_refl]
  by (simp add: take_bit_eq_mod drop_bit_eq_div)

section \<open>Properties of the two loops of accessData\<close>

lemma hit_loop_Some:
  "hit_loop t xs i e = Inr (Some ys) \<Longrightarrow>
     \<exists>j. i < j \<and> j < length xs \<and> int j < int i + e \<and> t = tag (xs ! j) \<and> valid (xs ! j) \<and>
         (\<forall>k. i < k \<and> k < j \<longrightarrow> \<not> (t = tag (xs ! k) \<and> valid (xs ! k))) \<and>
         ys = move_to_front j xs"
proof (induction t xs i e rule: hit_loop.induct)
  case (1 t xs i e)
  note step = hit_loop.simps [of t xs i e]
  show ?case
  proof (cases "1 < e \<and> Suc i < length xs")
    case False
    with "1.prems" [unfolded step] show ?thesis by (auto split: if_splits)
  next
    case True
    show ?thesis
    proof (cases "t = tag (xs ! Suc i) \<and> valid (xs ! Suc i)")
      case hit: True
      with True "1.prems" [unfolded step] have "ys = move_to_front (Suc i) xs" by simp
      with True hit show ?thesis
        by (intro exI [of _ "Suc i"]) auto
    next
      case nohit: False
      with True "1.prems" [unfolded step] have "hit_loop t xs (Suc i) (e - 1) = Inr (Some ys)" by simp
      from "1.IH" [OF _ _ nohit this] True
      obtain j where j: "Suc i < j" "j < length xs" "int j < int (Suc i) + (e - 1)"
        "t = tag (xs ! j)" "valid (xs ! j)"
        "\<forall>k. Suc i < k \<and> k < j \<longrightarrow> \<not> (t = tag (xs ! k) \<and> valid (xs ! k))"
        "ys = move_to_front j xs" by auto
      have "\<forall>k. i < k \<and> k < j \<longrightarrow> \<not> (t = tag (xs ! k) \<and> valid (xs ! k))"
      proof (intro allI impI)
        fix k assume "i < k \<and> k < j"
        then have "k = Suc i \<or> (Suc i < k \<and> k < j)" by auto
        with nohit j(6) show "\<not> (t = tag (xs ! k) \<and> valid (xs ! k))" by blast
      qed
      with j show ?thesis by (intro exI [of _ j]) auto
    qed
  qed
qed

lemma hit_loop_None:
  "hit_loop t xs i e = Inr None \<Longrightarrow> i < k \<Longrightarrow> int k < int i + e \<Longrightarrow>
     k < length xs \<and> \<not> (t = tag (xs ! k) \<and> valid (xs ! k))"
proof (induction t xs i e rule: hit_loop.induct)
  case (1 t xs i e)
  note step = hit_loop.simps [of t xs i e]
  from "1.prems" have e: "1 < e" by linarith
  note run = "1.prems"(1) [unfolded step]
  from e run have len: "Suc i < length xs" by (auto split: if_splits)
  from e len run have nohit: "\<not> (t = tag (xs ! Suc i) \<and> valid (xs ! Suc i))"
    by (auto split: if_splits)
  with e len run have rec: "hit_loop t xs (Suc i) (e - 1) = Inr None" by simp
  show ?case
  proof (cases "k = Suc i")
    case True
    with len nohit show ?thesis by simp
  next
    case False
    with "1.prems" have "Suc i < k" "int k < int (Suc i) + (e - 1)" by auto
    from "1.IH" [OF e len nohit rec this] show ?thesis .
  qed
qed

lemma hit_loop_no_error:
  "int i + e \<le> int (length xs) \<Longrightarrow> \<exists>r. hit_loop t xs i e = Inr r"
proof (induction t xs i e rule: hit_loop.induct)
  case (1 t xs i e)
  note step = hit_loop.simps [of t xs i e]
  show ?case
  proof (cases "1 < e")
    case False
    then show ?thesis unfolding step by simp
  next
    case True
    with "1.prems" have len: "Suc i < length xs" by linarith
    show ?thesis
    proof (cases "t = tag (xs ! Suc i) \<and> valid (xs ! Suc i)")
      case hit: True
      with True len show ?thesis unfolding step by simp
    next
      case nohit: False
      from "1.prems" have "int (Suc i) + (e - 1) \<le> int (length xs)" by simp
      from "1.IH" [OF True len nohit this] True len nohit show ?thesis unfolding step by simp
    qed
  qed
qed

lemma scan_open_props:
  "scan_open xs i = c \<Longrightarrow>
     i \<le> c \<and> (\<forall>j. i < j \<and> j \<le> c \<longrightarrow> valid (xs ! j)) \<and>
     (Suc i < length xs \<longrightarrow> Suc c < length xs) \<and> (c = i \<or> Suc c < length xs) \<and>
     \<not> (Suc c < length xs \<and> valid (xs ! Suc c) \<and> Suc (Suc c) < length xs)"
proof (induction xs i arbitrary: c rule: scan_open.induct)
  case (1 xs i)
  note step = scan_open.simps [of xs i]
  show ?case
  proof (cases "Suc i < length xs \<and> valid (xs ! Suc i) \<and> Suc (Suc i) < length xs")
    case False
    with "1.prems" [unfolded step] have "c = i" by (simp split: if_splits)
    with False show ?thesis by auto
  next
    case True
    with "1.prems" [unfolded step] have rec: "scan_open xs (Suc i) = c" by simp
    from "1.IH" [OF True rec] True
    have ih: "Suc i \<le> c" "\<forall>j. Suc i < j \<and> j \<le> c \<longrightarrow> valid (xs ! j)" "Suc c < length xs"
      "\<not> (Suc c < length xs \<and> valid (xs ! Suc c) \<and> Suc (Suc c) < length xs)" by auto
    have "\<forall>j. i < j \<and> j \<le> c \<longrightarrow> valid (xs ! j)"
    proof (intro allI impI)
      fix j assume "i < j \<and> j \<le> c"
      then have "j = Suc i \<or> (Suc i < j \<and> j \<le> c)" by auto
      with True ih(2) show "valid (xs ! j)" by blast
    qed
    with ih show ?thesis by auto
  qed
qed

section \<open>Properties of accessData on the selected set\<close>

lemma accessData_access_set:
  "accessData addr g =
     (case decode (cfg_s g) (cfg_b g) addr of
        Inl e \<Rightarrow> Inl e
      | Inr (s_bits, t_bits) \<Rightarrow>
          if s_bits < 0 \<or> int (length (cache g)) \<le> s_bits then Inl Index_out_of_bounds
          else (case access_set (cfg_E g) t_bits (cache g ! nat s_bits) of
                  Inl e \<Rightarrow> Inl e
                | Inr (ys, hit, evicted) \<Rightarrow>
                    Inr (count_access (hit, evicted) (g\<lparr>cache := (cache g)[nat s_bits := ys]\<rparr>))))"
  by (auto simp add: accessData_def access_set_def count_access_def Let_def
      split: sum.splits option.splits prod.splits)

lemma miss_fill_shape:
  assumes "xs \<noteq> []" and "miss_fill t xs = (ys, ev)"
  shows "if ev then (\<forall>x \<in> set xs. valid x) \<and> ys = \<lparr>valid = True, tag = t\<rparr> # butlast xs
         else (\<exists>j < length xs. \<not> valid (xs ! j) \<and> ys = \<lparr>valid = True, tag = t\<rparr> # take j xs @ drop (Suc j) xs)"
proof (cases "valid (xs ! 0)")
  case False
  with assms have "ys = xs[0 := \<lparr>valid = True, tag = t\<rparr>]" "\<not> ev"
    by (auto simp add: miss_fill_def)
  moreover from assms(1) have "xs[0 := \<lparr>valid = True, tag = t\<rparr>] = \<lparr>valid = True, tag = t\<rparr> # take 0 xs @ drop (Suc 0) xs"
    by (cases xs) auto
  ultimately show ?thesis using False assms(1) by (auto intro!: exI [of _ 0])
next
  case head: True
  define c where "c = scan_open xs 0"
  from scan_open_props [OF c_def [symmetric]]
  have run: "\<forall>j. 0 < j \<and> j \<le> c \<longrightarrow> valid (xs ! j)"
    and len: "Suc 0 < length xs \<longrightarrow> Suc c < length xs"
    and c0: "c = 0 \<or> Suc c < length xs"
    and stop: "\<not> (Suc c < length xs \<and> valid (xs ! Suc c) \<and> Suc (Suc c) < length xs)"
    by auto
  have upto: "\<forall>j \<le> c. valid (xs ! j)"
  proof (intro allI impI)
    fix j assume "j \<le> c"
    then show "valid (xs ! j)" using head run by (cases "j = 0") auto
  qed
  consider (slot) "Suc c < length xs" "\<not> valid (xs ! Suc c)"
    | (single) "\<not> Suc c < length xs"
    | (full) "Suc c < length xs" "valid (xs ! Suc c)" by blast
  then show ?thesis
  proof cases
    case slot
    with head assms(2) have "ys = \<lparr>valid = True, tag = t\<rparr> # take (Suc c) xs @ drop (Suc (Suc c)) xs" "\<not> ev"
      by (auto simp add: miss_fill_def Let_def c_def)
    with slot show ?thesis by (auto intro!: exI [of _ "Suc c"])
  next
    case single
    with len c0 assms(1) have l1: "length xs = 1" and "c = 0"
      by (cases xs; auto)+
    with head single assms(2) have "ys = xs[0 := \<lparr>valid = True, tag = t\<rparr>]" "ev"
      by (auto simp add: miss_fill_def Let_def c_def)
    moreover from l1 obtain x where "xs = [x]" by (cases xs) auto
    ultimately show ?thesis using head by auto
  next
    case full
    with stop have last: "Suc (Suc c) = length xs" by auto
    from full head assms(2) have "ys = \<lparr>valid = True, tag = t\<rparr> # take (Suc c) xs" "ev"
      by (auto simp add: miss_fill_def Let_def c_def)
    moreover have "take (Suc c) xs = butlast xs"
      using last [symmetric] by (simp add: butlast_conv_take)
    moreover have "\<forall>x \<in> set xs. valid x"
    proof
      fix x assume "x \<in> set xs"
      then obtain j where j: "j < length xs" "x = xs ! j" by (auto simp add: in_set_conv_nth)
      with last have "j \<le> c \<or> j = Suc c" by auto
      with upto full j show "valid x" by auto
    qed
    ultimately show ?thesis by simp
  qed
qed


lemma valid_tags_drop_invalid:
  assumes "j < length xs" "\<not> valid (xs ! j)"
  shows "valid_tags (take j xs @ drop (Suc j) xs) = valid_tags xs"
proof -
  have "valid_tags xs = valid_tags (take j xs @ xs ! j # drop (Suc j) xs)"
    using assms(1) by (simp add: id_take_nth_drop [symmetric])
  also have "\<dots> = valid_tags (take j xs @ drop (Suc j) xs)"
    using assms(2) by (simp add: valid_tags_def)
  finally show ?thesis by simp
qed

lemma valid_tags_all_valid:
  assumes "\<forall>x \<in> set xs. valid x"
  shows "valid_tags xs = map tag xs" "valid_tags (butlast xs) = butlast (valid_tags xs)"
proof -
  from assms show a: "valid_tags xs = map tag xs" by (simp add: valid_tags_def)
  from assms have "\<forall>x \<in> set (butlast xs). valid x" by (auto dest: in_set_butlastD)
  then have "valid_tags (butlast xs) = map tag (butlast xs)" by (simp add: valid_tags_def)
  with a show "valid_tags (butlast xs) = butlast (valid_tags xs)" by (simp add: map_butlast)
qed

lemma length_valid_tags_less:
  assumes "j < length xs" "\<not> valid (xs ! j)"
  shows "length (valid_tags xs) < length xs"
proof -
  from assms have "xs ! j \<in> set xs" by simp
  with assms(2) show ?thesis
    by (simp add: valid_tags_def length_filter_less)
qed

lemma valid_tags_move_to_front:
  assumes j: "j < length xs" and hit: "t = tag (xs ! j)" "valid (xs ! j)"
    and first: "\<forall>k < j. \<not> (t = tag (xs ! k) \<and> valid (xs ! k))"
  shows "valid_tags (move_to_front j xs) = t # remove1 t (valid_tags xs)"
proof -
  have notin: "t \<notin> set (valid_tags (take j xs))"
  proof
    assume "t \<in> set (valid_tags (take j xs))"
    then obtain x where x: "x \<in> set (take j xs)" "valid x" "t = tag x"
      by (auto simp add: valid_tags_def)
    then obtain k where "k < length (take j xs)" "x = take j xs ! k"
      by (auto simp add: in_set_conv_nth)
    with j have "k < j" "x = xs ! k" by auto
    with first x show False by auto
  qed
  have "valid_tags xs = valid_tags (take j xs @ xs ! j # drop (Suc j) xs)"
    using j by (simp add: id_take_nth_drop [symmetric])
  also have "\<dots> = valid_tags (take j xs) @ t # valid_tags (drop (Suc j) xs)"
    using hit by (simp add: valid_tags_def)
  finally have "remove1 t (valid_tags xs) = valid_tags (take j xs) @ valid_tags (drop (Suc j) xs)"
    using notin by (simp add: remove1_append)
  moreover have "valid_tags (move_to_front j xs) =
      t # valid_tags (take j xs) @ valid_tags (drop (Suc j) xs)"
    using hit by (simp add: move_to_front_def valid_tags_def)
  ultimately show ?thesis by simp
qed

lemma length_move_to_front: "j < length xs \<Longrightarrow> length (move_to_front j xs) = length xs"
  by (simp add: move_to_front_def)

lemma access_set_Inr:
  assumes "access_set E t xs = Inr (ys, hit, ev)"
  obtains (head) "xs \<noteq> []" "t = tag (xs ! 0)" "valid (xs ! 0)" "ys = xs" "hit" "\<not> ev"
    | (found) "xs \<noteq> []" "\<not> (t = tag (xs ! 0) \<and> valid (xs ! 0))"
        "hit_loop t xs 0 E = Inr (Some ys)" "hit" "\<not> ev"
    | (miss) "xs \<noteq> []" "\<not> (t = tag (xs ! 0) \<and> valid (xs ! 0))"
        "hit_loop t xs 0 E = Inr None" "miss_fill t xs = (ys, ev)" "\<not> hit"
  using assms unfolding access_set_def
  by (auto split: if_splits sum.splits option.splits prod.splits)

lemma access_set_length:
  assumes "access_set E t xs = Inr (ys, hit, ev)"
  shows "length ys = length xs"
  using assms
proof (cases rule: access_set_Inr)
  case head
  then show ?thesis by simp
next
  case found
  from hit_loop_Some [OF found(3)] show ?thesis
    by (auto simp add: length_move_to_front)
next
  case miss
  from miss(1) have "length (butlast xs) = length xs - 1" by simp
  with miss_fill_shape [OF miss(1,4)] miss(1) show ?thesis
    by (cases ev) (auto simp add: Suc_leI)
qed

lemma access_set_head:
  assumes "access_set E t xs = Inr (ys, hit, ev)"
  shows "ys \<noteq> [] \<and> t = tag (ys ! 0) \<and> valid (ys ! 0)"
  using assms
proof (cases rule: access_set_Inr)
  case head
  then show ?thesis by simp
next
  case found
  from hit_loop_Some [OF found(3)] show ?thesis
    by (auto simp add: move_to_front_def)
next
  case miss
  from miss_fill_shape [OF miss(1,4)] show ?thesis
    by (cases ev) auto
qed

lemma access_set_all_invalid:
  assumes "access_set E t xs = Inr (ys, hit, ev)" and inv: "\<forall>x \<in> set xs. \<not> valid x"
  shows "\<not> hit \<and> \<not> ev"
  using assms(1)
proof (cases rule: access_set_Inr)
  case head
  with inv show ?thesis by (cases xs) auto
next
  case found
  from hit_loop_Some [OF found(3)] inv show ?thesis by auto
next
  case miss
  from miss_fill_shape [OF miss(1,4)] inv miss show ?thesis
    by (cases ev) (auto simp add: neq_Nil_conv)
qed

lemma access_set_lru:
  assumes len: "int (length xs) = E" and E: "1 \<le> E"
  shows "\<exists>ys hit ev. access_set E t xs = Inr (ys, hit, ev) \<and>
           lru_access (nat E) t (valid_tags xs) =
             (if hit then Hit else if ev then MissEvict else MissClean, valid_tags ys)"
proof -
  from len E have ne: "xs \<noteq> []" by auto
  show ?thesis
  proof (cases "t = tag (xs ! 0) \<and> valid (xs ! 0)")
    case True
    with ne obtain x rest where xs: "xs = x # rest" "tag x = t" "valid x"
      by (cases xs) auto
    then have "valid_tags xs = t # valid_tags rest" by (simp add: valid_tags_def)
    then have "lru_access (nat E) t (valid_tags xs) = (Hit, valid_tags xs)"
      by (simp add: lru_access_def)
    moreover from True ne have "access_set E t xs = Inr (xs, True, False)"
      by (simp add: access_set_def)
    ultimately show ?thesis by auto
  next
    case nohead: False
    from len hit_loop_no_error [of 0 E xs t] obtain r where r: "hit_loop t xs 0 E = Inr r"
      by auto
    show ?thesis
    proof (cases r)
      case (Some zs)
      from hit_loop_Some [OF r [unfolded Some]]
      obtain j where j: "0 < j" "j < length xs" "t = tag (xs ! j)" "valid (xs ! j)"
        "\<forall>k. 0 < k \<and> k < j \<longrightarrow> \<not> (t = tag (xs ! k) \<and> valid (xs ! k))"
        "zs = move_to_front j xs" by auto
      have first: "\<forall>k < j. \<not> (t = tag (xs ! k) \<and> valid (xs ! k))"
      proof (intro allI impI)
        fix k assume "k < j"
        with nohead j(5) show "\<not> (t = tag (xs ! k) \<and> valid (xs ! k))"
          by (cases "k = 0") auto
      qed
      have vt: "valid_tags zs = t # remove1 t (valid_tags xs)"
        unfolding j(6) using j(2,3,4) first by (rule valid_tags_move_to_front)
      from j have "xs ! j \<in> set xs" by simp
      with j have "t \<in> set (valid_tags xs)" by (auto simp add: valid_tags_def)
      then have "lru_access (nat E) t (valid_tags xs) = (Hit, valid_tags zs)"
        by (simp add: lru_access_def vt)
      moreover from nohead ne r Some have "access_set E t xs = Inr (zs, True, False)"
        by (auto simp add: access_set_def)
      ultimately show ?thesis by auto
    next
      case None
      have notin: "t \<notin> set (valid_tags xs)"
      proof
        assume "t \<in> set (valid_tags xs)"
        then obtain x where x: "x \<in> set xs" "valid x" "t = tag x"
          by (auto simp add: valid_tags_def)
        then obtain k where k: "k < length xs" "x = xs ! k"
          by (auto simp add: in_set_conv_nth)
        show False
        proof (cases "k = 0")
          case True
          with k x nohead show False by simp
        next
          case False
          with k len have "0 < k" "int k < int 0 + E" by auto
          from hit_loop_None [OF r [unfolded None] this] k x show False by simp
        qed
      qed
      obtain ys ev where mf: "miss_fill t xs = (ys, ev)" by (cases "miss_fill t xs")
      from nohead ne r None mf have acc: "access_set E t xs = Inr (ys, False, ev)"
        by (auto simp add: access_set_def)
      show ?thesis
      proof (cases ev)
        case True
        with miss_fill_shape [OF ne mf]
        have all: "\<forall>x \<in> set xs. valid x" and ys: "ys = \<lparr>valid = True, tag = t\<rparr> # butlast xs"
          by auto
        from all have "length (valid_tags xs) = length xs"
          by (simp add: valid_tags_all_valid(1))
        with len have full: "\<not> length (valid_tags xs) < nat E" by simp
        have "valid_tags ys = t # butlast (valid_tags xs)"
          unfolding ys using valid_tags_all_valid(2) [OF all] by (simp add: valid_tags_def)
        with notin full have "lru_access (nat E) t (valid_tags xs) = (MissEvict, valid_tags ys)"
          by (simp add: lru_access_def)
        with acc True show ?thesis by auto
      next
        case False
        with miss_fill_shape [OF ne mf]
        obtain j where j: "j < length xs" "\<not> valid (xs ! j)"
          "ys = \<lparr>valid = True, tag = t\<rparr> # take j xs @ drop (Suc j) xs" by auto
        from length_valid_tags_less [OF j(1,2)] len
        have room: "length (valid_tags xs) < nat E" by simp
        have "valid_tags ys = t # valid_tags (take j xs @ drop (Suc j) xs)"
          unfolding j(3) by (simp add: valid_tags_def)
        then have "valid_tags ys = t # valid_tags xs"
          by (simp only: valid_tags_drop_invalid [OF j(1,2)])
        with notin room have "lru_access (nat E) t (valid_tags xs) = (MissClean, valid_tags ys)"
          by (simp add: lru_access_def)
        with acc False show ?thesis by auto
      qed
    qed
  qed
qed

section \<open>Properties of accessData\<close>

lemma accessData_Inr:
  assumes "accessData addr g = Inr g'"
  obtains s_bits t_bits ys hit ev where
    "decode (cfg_s g) (cfg_b g) addr = Inr (s_bits, t_bits)"
    "0 \<le> s_bits" "s_bits < int (length (cache g))"
    "access_set (cfg_E g) t_bits (cache g ! nat s_bits) = Inr (ys, hit, ev)"
    "g' = count_access (hit, ev) (g\<lparr>cache := (cache g)[nat s_bits := ys]\<rparr>)"
  using assms unfolding accessData_access_set
  by (auto split: sum.splits prod.splits if_splits)

lemma accessData_defined:
  assumes "decode (cfg_s g) (cfg_b g) addr = Inr (s_bits, t_bits)"
    and "0 \<le> s_bits" "s_bits < int (length (cache g))"
    and "access_set (cfg_E g) t_bits (cache g ! nat s_bits) = Inr (ys, hit, ev)"
  shows "accessData addr g = Inr (count_access (hit, ev) (g\<lparr>cache := (cache g)[nat s_bits := ys]\<rparr>))"
  using assms unfolding accessData_access_set by auto

lemma count_access_fields [simp]:
  "cfg_s (count_access he g) = cfg_s g"
  "cfg_b (count_access he g) = cfg_b g"
  "cfg_E (count_access he g) = cfg_E g"
  "cfg_S (count_access he g) = cfg_S g"
  "cache (count_access he g) = cache g"
  by (cases he; simp add: count_access_def)+

lemma count_access_counters:
  "hit_count (count_access (hit, ev) g) = (if hit then hit_count g + 1 else hit_count g)"
  "miss_count (count_access (hit, ev) g) = (if hit then miss_count g else miss_count g + 1)"
  "eviction_count (count_access (hit, ev) g) = (if ev then eviction_count g + 1 else eviction_count g)"
  by (simp_all add: count_access_def)

lemma accessData_unchanged:
  assumes "accessData addr g = Inr g'"
  shows "cfg_s g' = cfg_s g" "cfg_b g' = cfg_b g" "cfg_E g' = cfg_E g" "cfg_S g' = cfg_S g"
    "length (cache g') = length (cache g)"
  using assms by (cases rule: accessData_Inr; simp)+

lemma accessData_step:
  assumes E: "1 \<le> cfg_E g"
    and dec: "decode (cfg_s g) (cfg_b g) addr = Inr (s_bits, t_bits)"
    and range: "0 \<le> s_bits" "s_bits < int (length (cache g))"
    and len: "int (length (cache g ! nat s_bits)) = cfg_E g"
  obtains ys hit ev where
    "accessData addr g = Inr (count_access (hit, ev) (g\<lparr>cache := (cache g)[nat s_bits := ys]\<rparr>))"
    "lru_access (nat (cfg_E g)) t_bits (valid_tags (cache g ! nat s_bits)) =
       (if hit then Hit else if ev then MissEvict else MissClean, valid_tags ys)"
    "hit \<Longrightarrow> \<not> ev"
    "length ys = length (cache g ! nat s_bits)"
proof -
  from access_set_lru [OF len E, of t_bits]
  obtain ys hit ev where acc: "access_set (cfg_E g) t_bits (cache g ! nat s_bits) = Inr (ys, hit, ev)"
    and lru: "lru_access (nat (cfg_E g)) t_bits (valid_tags (cache g ! nat s_bits)) =
      (if hit then Hit else if ev then MissEvict else MissClean, valid_tags ys)"
    by blast
  have "hit \<Longrightarrow> \<not> ev"
    using acc by (cases rule: access_set_Inr) auto
  moreover from dec range acc
  have "accessData addr g = Inr (count_access (hit, ev) (g\<lparr>cache := (cache g)[nat s_bits := ys]\<rparr>))"
    by (rule accessData_defined)
  ultimately show ?thesis using lru access_set_length [OF acc] that by blast
qed

lemma accessData_example_full: "accessData 12 example_full = Inr example_evicted"
  by (simp add: accessData_def decode_def set_mask_def example_full_def example_evicted_def
      hit_loop.simps miss_fill_def scan_open.simps)

lemma decode_example: "decode 1 1 12 = Inr (0, 3)" "decode 1 1 0 = Inr (0, 0)"
  by (simp_all add: decode_def set_mask_def)

section \<open>The chains in memory compute what the lists compute\<close>

lemma seg_append: "seg h p (as @ bs) q \<longleftrightarrow> (\<exists>r. seg h p as r \<and> seg h r bs q)"
  by (induction as arbitrary: p) auto

lemma seg_cong:
  assumes "\<forall>x \<in> set as. n_next (h' x) = n_next (h x)"
  shows "seg h' p as q \<longleftrightarrow> seg h p as q"
  using assms by (induction as arbitrary: p) auto

lemma lines_at_cong:
  assumes "\<forall>x \<in> set as. n_valid (h' x) = n_valid (h x) \<and> n_tag (h' x) = n_tag (h x)"
  shows "lines_at h' as = lines_at h as"
  using assms by (simp add: lines_at_def)

lemma seg_nth:
  assumes "seg h p as q" "k < length as"
  shows "n_next (h (as ! k)) = (if Suc k < length as then Some (as ! Suc k) else q)"
  using assms
proof (induction as arbitrary: p k)
  case Nil
  then show ?case by simp
next
  case (Cons a as)
  show ?case
  proof (cases k)
    case 0
    with Cons.prems show ?thesis by (cases as) auto
  next
    case (Suc k')
    with Cons.prems Cons.IH [of "n_next (h a)" k'] show ?thesis by auto
  qed
qed

lemma seg_first:
  assumes "seg h p as q" "as \<noteq> []"
  shows "p = Some (as ! 0)"
  using assms by (cases as) auto

lemma length_lines_at [simp]: "length (lines_at h as) = length as"
  by (simp add: lines_at_def)

lemma lines_at_nth:
  "k < length as \<Longrightarrow> valid (lines_at h as ! k) = n_valid (h (as ! k))"
  "k < length as \<Longrightarrow> tag (lines_at h as ! k) = n_tag (h (as ! k))"
  by (simp_all add: lines_at_def)

lemma hit_loop_mem_sim:
  assumes "seg h p as None" "k < length as"
  shows "case hit_loop t (lines_at h as) k e of
           Inl err \<Rightarrow> hit_loop_mem t h (as ! k) e = Inl err
         | Inr None \<Rightarrow> hit_loop_mem t h (as ! k) e = Inr None
         | Inr (Some ys) \<Rightarrow>
             (\<exists>j. k < j \<and> j < length as \<and>
                  hit_loop_mem t h (as ! k) e = Inr (Some (as ! (j - 1), as ! j)) \<and>
                  ys = move_to_front j (lines_at h as))"
  using assms(2)
proof (induction t "lines_at h as" k e rule: hit_loop.induct)
  case (1 t k e)
  note step = hit_loop.simps [of t "lines_at h as" k e]
  note step_mem = hit_loop_mem.simps [of t h "as ! k" e]
  show ?case
  proof (cases "1 < e")
    case False
    then show ?thesis unfolding step step_mem by simp
  next
    case e: True
    show ?thesis
    proof (cases "Suc k < length as")
      case False
      with seg_nth [OF assms(1) "1.prems"] have "n_next (h (as ! k)) = None" by simp
      with e False show ?thesis unfolding step step_mem by simp
    next
      case len: True
      with seg_nth [OF assms(1) "1.prems"] have nx: "n_next (h (as ! k)) = Some (as ! Suc k)"
        by simp
      show ?thesis
      proof (cases "t = tag (lines_at h as ! Suc k) \<and> valid (lines_at h as ! Suc k)")
        case True
        with len have "t = n_tag (h (as ! Suc k)) \<and> n_valid (h (as ! Suc k))"
          by (simp add: lines_at_nth)
        with True e len nx show ?thesis unfolding step step_mem
          by (auto intro!: exI [of _ "Suc k"])
      next
        case False
        with len have no: "\<not> (t = n_tag (h (as ! Suc k)) \<and> n_valid (h (as ! Suc k)))"
          by (simp add: lines_at_nth)
        from e len have a: "Suc k < length (lines_at h as)" by simp
        have eq: "hit_loop t (lines_at h as) k e = hit_loop t (lines_at h as) (Suc k) (e - 1)"
          unfolding step using e len False by auto
        have eq_mem: "hit_loop_mem t h (as ! k) e = hit_loop_mem t h (as ! Suc k) (e - 1)"
          unfolding step_mem using e nx no by auto
        from "1.hyps" [OF e a False len] show ?thesis
          unfolding eq eq_mem by (auto split: sum.splits option.splits) (metis Suc_lessD)
      qed
    qed
  qed
qed

lemma seg_relink:
  assumes ch: "seg h (Some a0) (pre @ c # n # post) None"
    and d: "distinct (pre @ c # n # post)"
    and n': "n_next (h' n) = Some a0"
    and c': "n_next (h' c) = n_next (h n)"
    and other: "\<forall>x. x \<noteq> c \<and> x \<noteq> n \<longrightarrow> n_next (h' x) = n_next (h x)"
  shows "seg h' (Some n) (n # pre @ c # post) None"
proof -
  from ch obtain r where r: "seg h (Some a0) pre r" "seg h r (c # n # post) None"
    unfolding seg_append by blast
  then have rc: "r = Some c" and post: "seg h (n_next (h n)) post None" by simp_all
  from d other have "\<forall>x \<in> set pre. n_next (h' x) = n_next (h x)" by auto
  from seg_cong [OF this] r(1) rc have 1: "seg h' (Some a0) pre (Some c)" by simp
  from d other have "\<forall>x \<in> set post. n_next (h' x) = n_next (h x)" by auto
  from seg_cong [OF this] post have "seg h' (n_next (h n)) post None" by simp
  with c' have 2: "seg h' (Some c) (c # post) None" by simp
  from 1 2 have "seg h' (Some a0) (pre @ c # post) None"
    unfolding seg_append by blast
  with n' show ?thesis by simp
qed

lemma split_at_hit:
  assumes "0 < j" "j < length as"
  shows "as = take (j - 1) as @ as ! (j - 1) # as ! j # drop (Suc j) as"
    and "move_to_front j as = as ! j # take (j - 1) as @ as ! (j - 1) # drop (Suc j) as"
proof -
  from assms obtain i where j: "j = Suc i" by (cases j) auto
  with assms have i: "i < length as" "Suc i < length as" by simp_all
  have "as = take i as @ as ! i # drop (Suc i) as"
    using i(1) by (simp add: id_take_nth_drop [symmetric])
  also have "drop (Suc i) as = as ! Suc i # drop (Suc (Suc i)) as"
    using i(2) by (simp add: Cons_nth_drop_Suc)
  finally show "as = take (j - 1) as @ as ! (j - 1) # as ! j # drop (Suc j) as"
    using j by simp
  have "take (Suc i) as = take i as @ [as ! i]"
    using i(1) by (simp add: take_Suc_conv_app_nth)
  then show "move_to_front j as = as ! j # take (j - 1) as @ as ! (j - 1) # drop (Suc j) as"
    using j by (simp add: move_to_front_def)
qed

lemma lines_at_move_to_front:
  assumes "j < length as"
  shows "lines_at h (move_to_front j as) = move_to_front j (lines_at h as)"
  using assms by (simp add: lines_at_def move_to_front_def take_map drop_map)

lemma set_move_to_front:
  assumes "j < length as"
  shows "set (move_to_front j as) = set as" "distinct (move_to_front j as) \<longleftrightarrow> distinct as"
proof -
  have e: "take j as @ as ! j # drop (Suc j) as = as"
    using assms by (simp add: id_take_nth_drop [symmetric])
  have "set (move_to_front j as) = set (take j as @ as ! j # drop (Suc j) as)"
    by (auto simp add: move_to_front_def)
  then show "set (move_to_front j as) = set as" unfolding e .
  have "distinct (move_to_front j as) \<longleftrightarrow> distinct (take j as @ as ! j # drop (Suc j) as)"
    by (auto simp add: move_to_front_def)
  then show "distinct (move_to_front j as) \<longleftrightarrow> distinct as" unfolding e .
qed

text \<open>
  The relinking that the hit branch and two of the miss branches perform: the line at
  position \<open>j\<close> is unlinked and becomes the head.
\<close>

lemma relink_rep:
  assumes rep: "set_rep h p as xs" and j: "0 < j" "j < length as"
    and n': "n_next (h' (as ! j)) = p"
    and c': "n_next (h' (as ! (j - 1))) = n_next (h (as ! j))"
    and other: "\<forall>x. x \<noteq> as ! (j - 1) \<and> x \<noteq> as ! j \<longrightarrow> n_next (h' x) = n_next (h x)"
  shows "seg h' (Some (as ! j)) (move_to_front j as) None" "distinct (move_to_front j as)"
proof -
  from rep have ch: "seg h p as None" and d: "distinct as" by (simp_all add: set_rep_def)
  from j have ne: "as \<noteq> []" by auto
  with ch have p: "p = Some (as ! 0)" by (rule seg_first)
  note dec = split_at_hit [OF j]
  let ?pre = "take (j - 1) as" and ?c = "as ! (j - 1)" and ?n = "as ! j" and ?post = "drop (Suc j) as"
  have a0: "as ! 0 = (?pre @ [?c]) ! 0"
    using j by (cases "j - 1") (simp_all add: nth_append)
  have "seg h (Some (as ! 0)) (?pre @ ?c # ?n # ?post) None"
    using ch p dec(1) by simp
  moreover have "distinct (?pre @ ?c # ?n # ?post)" using d dec(1) by simp
  moreover have "n_next (h' ?n) = Some (as ! 0)" using n' p by simp
  ultimately have "seg h' (Some ?n) (?n # ?pre @ ?c # ?post) None"
    using c' other by (rule seg_relink)
  then show "seg h' (Some (as ! j)) (move_to_front j as) None"
    unfolding dec(2) .
  from d j show "distinct (move_to_front j as)" by (simp add: set_move_to_front)
qed

lemma scan_mem_sim:
  assumes "seg h p as None" "k < length as"
  shows "scan_mem h (as ! k) = Some (as ! scan_open (lines_at h as) k)"
  using assms(2)
proof (induction "lines_at h as" k rule: scan_open.induct)
  case (1 k)
  note step = scan_open.simps [of "lines_at h as" k]
  note step_mem = scan_mem.simps [of h "as ! k"]
  note nx = seg_nth [OF assms(1) "1.prems"]
  show ?case
  proof (cases "Suc k < length as")
    case False
    with nx show ?thesis unfolding step step_mem by simp
  next
    case len: True
    with nx have n1: "n_next (h (as ! k)) = Some (as ! Suc k)" by simp
    from seg_nth [OF assms(1) len]
    have n2: "n_next (h (as ! Suc k)) \<noteq> None \<longleftrightarrow> Suc (Suc k) < length as" by simp
    show ?thesis
    proof (cases "valid (lines_at h as ! Suc k) \<and> Suc (Suc k) < length as")
      case True
      with len have c: "Suc k < length (lines_at h as) \<and> valid (lines_at h as ! Suc k) \<and>
          Suc (Suc k) < length (lines_at h as)" by simp
      from True len n2 have "n_valid (h (as ! Suc k)) \<and> n_next (h (as ! Suc k)) \<noteq> None"
        by (simp add: lines_at_nth)
      with n1 have "scan_mem h (as ! k) = scan_mem h (as ! Suc k)"
        unfolding step_mem by simp
      moreover from c have "scan_open (lines_at h as) k = scan_open (lines_at h as) (Suc k)"
        unfolding step by simp
      ultimately show ?thesis using "1.hyps" [OF c len] by simp
    next
      case False
      with len n2 have "\<not> (n_valid (h (as ! Suc k)) \<and> n_next (h (as ! Suc k)) \<noteq> None)"
        by (simp add: lines_at_nth)
      with n1 have "scan_mem h (as ! k) = Some (as ! k)" unfolding step_mem by auto
      moreover from False have "scan_open (lines_at h as) k = k" unfolding step by auto
      ultimately show ?thesis by simp
    qed
  qed
qed

lemma lines_at_update:
  assumes "distinct as" "k < length as"
  shows "lines_at (h(as ! k := v)) as = (lines_at h as)[k := \<lparr>valid = n_valid v, tag = n_tag v\<rparr>]"
proof (rule nth_equalityI)
  show "length (lines_at (h(as ! k := v)) as) =
      length ((lines_at h as)[k := \<lparr>valid = n_valid v, tag = n_tag v\<rparr>])" by simp
next
  fix i assume "i < length (lines_at (h(as ! k := v)) as)"
  then have i: "i < length as" by simp
  with assms have "as ! i = as ! k \<longleftrightarrow> i = k" by (simp add: nth_eq_iff_index_eq)
  with i show "lines_at (h(as ! k := v)) as ! i =
      (lines_at h as)[k := \<lparr>valid = n_valid v, tag = n_tag v\<rparr>] ! i"
    by (auto simp add: lines_at_def nth_list_update)
qed

lemma relink_set_rep:
  assumes rep: "set_rep h p as xs" and j: "0 < j" "j < length as"
    and n': "n_next (h' (as ! j)) = p"
    and c': "n_next (h' (as ! (j - 1))) = n_next (h (as ! j))"
    and other: "\<forall>x. x \<noteq> as ! (j - 1) \<and> x \<noteq> as ! j \<longrightarrow> n_next (h' x) = n_next (h x)"
    and content: "\<forall>x. x \<noteq> as ! j \<longrightarrow> n_valid (h' x) = n_valid (h x) \<and> n_tag (h' x) = n_tag (h x)"
  shows "set_rep h' (Some (as ! j)) (move_to_front j as)
           (\<lparr>valid = n_valid (h' (as ! j)), tag = n_tag (h' (as ! j))\<rparr> # take j xs @ drop (Suc j) xs)"
proof -
  from rep have d: "distinct as" and xs: "xs = lines_at h as" by (simp_all add: set_rep_def)
  note r = relink_rep [OF rep j n' c' other]
  have e: "take j as @ as ! j # drop (Suc j) as = as"
    using j(2) by (simp add: id_take_nth_drop [symmetric])
  with d have "distinct (take j as @ as ! j # drop (Suc j) as)" by simp
  then have notin: "as ! j \<notin> set (take j as)" "as ! j \<notin> set (drop (Suc j) as)" by auto
  have "\<forall>x \<in> set (take j as). n_valid (h' x) = n_valid (h x) \<and> n_tag (h' x) = n_tag (h x)"
  proof
    fix x assume "x \<in> set (take j as)"
    with notin(1) have "x \<noteq> as ! j" by blast
    with content show "n_valid (h' x) = n_valid (h x) \<and> n_tag (h' x) = n_tag (h x)" by simp
  qed
  then have 1: "lines_at h' (take j as) = lines_at h (take j as)" by (rule lines_at_cong)
  have "\<forall>x \<in> set (drop (Suc j) as). n_valid (h' x) = n_valid (h x) \<and> n_tag (h' x) = n_tag (h x)"
  proof
    fix x assume "x \<in> set (drop (Suc j) as)"
    with notin(2) have "x \<noteq> as ! j" by blast
    with content show "n_valid (h' x) = n_valid (h x) \<and> n_tag (h' x) = n_tag (h x)" by simp
  qed
  then have 2: "lines_at h' (drop (Suc j) as) = lines_at h (drop (Suc j) as)" by (rule lines_at_cong)
  from 1 2 have "lines_at h' (move_to_front j as) =
      \<lparr>valid = n_valid (h' (as ! j)), tag = n_tag (h' (as ! j))\<rparr> # take j xs @ drop (Suc j) xs"
    unfolding xs by (simp add: move_to_front_def lines_at_def take_map drop_map)
  with r show ?thesis by (simp add: set_rep_def)
qed

lemma access_set_mem_sim:
  assumes rep: "set_rep h p as xs"
  shows "case access_set E t xs of
           Inl err \<Rightarrow> access_set_mem E t (h, p) = Inl err
         | Inr (ys, hit, ev) \<Rightarrow>
             (\<exists>h' p' bs. access_set_mem E t (h, p) = Inr ((h', p'), hit, ev) \<and>
                set_rep h' p' bs ys \<and> set bs = set as \<and> (\<forall>x. x \<notin> set as \<longrightarrow> h' x = h x))"
proof (cases "as = []")
  case True
  with rep have "p = None" "xs = []" by (simp_all add: set_rep_def lines_at_def)
  then show ?thesis by (simp add: access_set_def access_set_mem_def)
next
  case ne: False
  from rep have ch: "seg h p as None" and d: "distinct as" and xs: "xs = lines_at h as"
    by (simp_all add: set_rep_def)
  from ne have len0: "0 < length as" by simp
  from ch ne have p: "p = Some (as ! 0)" by (rule seg_first)
  from ne xs have xne: "xs \<noteq> []" by (simp add: lines_at_def)
  have head: "tag (xs ! 0) = n_tag (h (as ! 0))" "valid (xs ! 0) = n_valid (h (as ! 0))"
    unfolding xs using len0 by (simp_all add: lines_at_nth)
  show ?thesis
  proof (cases "t = tag (xs ! 0) \<and> valid (xs ! 0)")
    case True
    with xne have "access_set E t xs = Inr (xs, True, False)" by (simp add: access_set_def)
    moreover from True head p have "access_set_mem E t (h, p) = Inr ((h, p), True, False)"
      by (simp add: access_set_mem_def)
    ultimately show ?thesis using rep by auto
  next
    case nohead: False
    with head have nohead_mem: "\<not> (t = n_tag (h (as ! 0)) \<and> n_valid (h (as ! 0)))" by simp
    note loop = hit_loop_mem_sim [OF ch len0, of t E, folded xs]
    show ?thesis
    proof (cases "hit_loop t xs 0 E")
      case (Inl err)
      with loop have "hit_loop_mem t h (as ! 0) E = Inl err" by simp
      with nohead_mem p have "access_set_mem E t (h, p) = Inl err"
        by (auto simp add: access_set_mem_def)
      moreover from Inl nohead xne have "access_set E t xs = Inl err"
        by (auto simp add: access_set_def)
      ultimately show ?thesis by simp
    next
      case (Inr r)
      show ?thesis
      proof (cases r)
        case (Some ys)
        with Inr loop obtain j where j: "0 < j" "j < length as"
          and lm: "hit_loop_mem t h (as ! 0) E = Inr (Some (as ! (j - 1), as ! j))"
          and ys: "ys = move_to_front j xs" by auto
        let ?c = "as ! (j - 1)" and ?n = "as ! j"
        let ?h1 = "h(?c := (h ?c)\<lparr>n_next := n_next (h ?n)\<rparr>)"
        let ?h' = "?h1(?n := (?h1 ?n)\<lparr>n_next := p\<rparr>)"
        from d j have cn: "?c \<noteq> ?n" by (simp add: nth_eq_iff_index_eq)
        have mv: "move_hit_line ?c ?n (h, p) = (?h', Some ?n)"
          by (simp add: move_hit_line_def Let_def)
        have "set_rep ?h' (Some ?n) (move_to_front j as)
           (\<lparr>valid = n_valid (?h' ?n), tag = n_tag (?h' ?n)\<rparr> # take j xs @ drop (Suc j) xs)"
          using rep j
        proof (rule relink_set_rep)
          show "n_next (?h' ?n) = p" by simp
          show "n_next (?h' ?c) = n_next (h ?n)" using cn by simp
          show "\<forall>x. x \<noteq> ?c \<and> x \<noteq> ?n \<longrightarrow> n_next (?h' x) = n_next (h x)" by simp
          show "\<forall>x. x \<noteq> ?n \<longrightarrow> n_valid (?h' x) = n_valid (h x) \<and> n_tag (?h' x) = n_tag (h x)"
            by simp
        qed
        moreover have "\<lparr>valid = n_valid (?h' ?n), tag = n_tag (?h' ?n)\<rparr> = xs ! j"
          unfolding xs using j cn by (simp add: lines_at_def)
        ultimately have rep': "set_rep ?h' (Some ?n) (move_to_front j as) ys"
          unfolding ys by (simp add: move_to_front_def)
        from j have "?c \<in> set as" "?n \<in> set as" by simp_all
        then have frame: "\<forall>x. x \<notin> set as \<longrightarrow> ?h' x = h x" by auto
        from lm nohead_mem p mv
        have "access_set_mem E t (h, p) = Inr ((?h', Some ?n), True, False)"
          by (auto simp add: access_set_mem_def)
        moreover from Inr Some nohead xne have "access_set E t xs = Inr (ys, True, False)"
          by (auto simp add: access_set_def)
        ultimately show ?thesis
          using rep' frame set_move_to_front(1) [OF j(2)] by auto
      next
        case None
        with Inr loop have lm: "hit_loop_mem t h (as ! 0) E = Inr None" by simp
        obtain ys ev where mf: "miss_fill t xs = (ys, ev)" by (cases "miss_fill t xs")
        with Inr None nohead xne have acc: "access_set E t xs = Inr (ys, False, ev)"
          by (auto simp add: access_set_def)
        have "\<exists>h' p' bs. miss_mem t (h, as ! 0) = Some ((h', p'), ev) \<and>
                set_rep h' p' bs ys \<and> set bs = set as \<and> (\<forall>x. x \<notin> set as \<longrightarrow> h' x = h x)"
        proof (cases "valid (xs ! 0)")
          case False
          let ?a = "as ! 0"
          let ?h' = "h(?a := (h ?a)\<lparr>n_tag := t, n_valid := True\<rparr>)"
          from False head have "miss_mem t (h, ?a) = Some ((?h', Some ?a), False)"
            by (simp add: miss_mem_def)
          moreover from False mf have "ys = xs[0 := \<lparr>valid = True, tag = t\<rparr>]" "\<not> ev"
            by (auto simp add: miss_fill_def)
          moreover have "seg ?h' p as None"
            using seg_cong [of as ?h' h p None] ch by simp
          moreover have "lines_at ?h' as = xs[0 := \<lparr>valid = True, tag = t\<rparr>]"
            unfolding xs using lines_at_update [OF d len0, of h] by simp
          moreover from len0 have "\<forall>x. x \<notin> set as \<longrightarrow> ?h' x = h x" by auto
          ultimately show ?thesis using d p by (auto simp add: set_rep_def)
        next
          case hv: True
          define c where "c = scan_open xs 0"
          from scan_open_props [OF c_def [symmetric]]
          have c0: "c = 0 \<or> Suc c < length xs"
            and stop: "\<not> (Suc c < length xs \<and> valid (xs ! Suc c) \<and> Suc (Suc c) < length xs)"
            by auto
          from c0 len0 xs have clen: "c < length as" by auto
          have lx: "length xs = length as" unfolding xs by simp
          from scan_mem_sim [OF ch len0] have sc: "scan_mem h (as ! 0) = Some (as ! c)"
            unfolding c_def xs .
          note nxt = seg_nth [OF ch clen]
          consider (slot) "Suc c < length as" "\<not> valid (xs ! Suc c)"
            | (single) "\<not> Suc c < length as"
            | (full) "Suc c < length as" "valid (xs ! Suc c)" by blast
          then show ?thesis
          proof cases
            case slot
            let ?k = "as ! c" and ?n = "as ! Suc c"
            from d slot(1) have kn: "?k \<noteq> ?n" by (simp add: nth_eq_iff_index_eq)
            from slot nxt have nk: "n_next (h ?k) = Some ?n" by simp
            from slot have nv: "\<not> n_valid (h ?n)" unfolding xs by (simp add: lines_at_nth)
            let ?h1 = "h(?n := (h ?n)\<lparr>n_next := Some (as ! 0)\<rparr>)"
            let ?h2 = "?h1(?n := (?h1 ?n)\<lparr>n_tag := t\<rparr>)"
            let ?h3 = "?h2(?n := (?h2 ?n)\<lparr>n_valid := True\<rparr>)"
            let ?h' = "?h3(?k := (?h3 ?k)\<lparr>n_next := n_next (h ?n)\<rparr>)"
            from hv head sc nk nv have "miss_mem t (h, as ! 0) = Some ((?h', Some ?n), False)"
              by (simp add: miss_mem_def Let_def)
            moreover from hv slot mf lx
            have "ys = \<lparr>valid = True, tag = t\<rparr> # take (Suc c) xs @ drop (Suc (Suc c)) xs" "\<not> ev"
              by (auto simp add: miss_fill_def Let_def c_def)
            moreover have "set_rep ?h' (Some ?n) (move_to_front (Suc c) as)
               (\<lparr>valid = n_valid (?h' ?n), tag = n_tag (?h' ?n)\<rparr> #
                take (Suc c) xs @ drop (Suc (Suc c)) xs)"
              using rep _ slot(1)
            proof (rule relink_set_rep)
              show "0 < Suc c" by simp
              show "n_next (?h' ?n) = p" using kn p by simp
              show "n_next (?h' (as ! (Suc c - 1))) = n_next (h ?n)" by simp
              show "\<forall>x. x \<noteq> as ! (Suc c - 1) \<and> x \<noteq> ?n \<longrightarrow> n_next (?h' x) = n_next (h x)"
                by simp
              show "\<forall>x. x \<noteq> ?n \<longrightarrow> n_valid (?h' x) = n_valid (h x) \<and> n_tag (?h' x) = n_tag (h x)"
                by simp
            qed
            moreover have "\<lparr>valid = n_valid (?h' ?n), tag = n_tag (?h' ?n)\<rparr> = \<lparr>valid = True, tag = t\<rparr>"
              using kn by simp
            moreover from clen slot(1) have "?k \<in> set as" "?n \<in> set as" by simp_all
            then have "\<forall>x. x \<notin> set as \<longrightarrow> ?h' x = h x" by auto
            ultimately show ?thesis
              using set_move_to_front(1) [OF slot(1)] by (auto simp del: fun_upd_apply)
          next
            case single
            let ?k = "as ! c"
            let ?h' = "h(?k := (h ?k)\<lparr>n_tag := t, n_valid := True\<rparr>)"
            from single nxt have nk: "n_next (h ?k) = None" by simp
            from hv head sc nk have "miss_mem t (h, as ! 0) = Some ((?h', Some (as ! 0)), True)"
              by (simp add: miss_mem_def)
            moreover from hv single mf lx have "ys = xs[c := \<lparr>valid = True, tag = t\<rparr>]" "ev"
              by (auto simp add: miss_fill_def Let_def c_def)
            moreover have "seg ?h' p as None"
              using seg_cong [of as ?h' h p None] ch by simp
            moreover have "lines_at ?h' as = xs[c := \<lparr>valid = True, tag = t\<rparr>]"
              unfolding xs using lines_at_update [OF d clen, of h] by simp
            moreover from clen have "\<forall>x. x \<notin> set as \<longrightarrow> ?h' x = h x" by auto
            ultimately show ?thesis using d p by (auto simp add: set_rep_def)
          next
            case full
            let ?k = "as ! c" and ?n = "as ! Suc c"
            from d full(1) have kn: "?k \<noteq> ?n" by (simp add: nth_eq_iff_index_eq)
            from full nxt have nk: "n_next (h ?k) = Some ?n" by simp
            from full have nv: "n_valid (h ?n)" unfolding xs by (simp add: lines_at_nth)
            from stop full lx have last: "\<not> Suc (Suc c) < length as" by simp
            with seg_nth [OF ch full(1)] have nn: "n_next (h ?n) = None" by simp
            let ?h1 = "h(?n := (h ?n)\<lparr>n_tag := t\<rparr>)"
            let ?h2 = "?h1(?n := (?h1 ?n)\<lparr>n_valid := True\<rparr>)"
            let ?h3 = "?h2(?n := (?h2 ?n)\<lparr>n_next := Some (as ! 0)\<rparr>)"
            let ?h' = "?h3(?k := (?h3 ?k)\<lparr>n_next := None\<rparr>)"
            from hv head sc nk nv have "miss_mem t (h, as ! 0) = Some ((?h', Some ?n), True)"
              by (simp add: miss_mem_def Let_def)
            moreover from hv full mf lx
            have "ys = \<lparr>valid = True, tag = t\<rparr> # take (Suc c) xs" "ev"
              by (auto simp add: miss_fill_def Let_def c_def)
            moreover have "set_rep ?h' (Some ?n) (move_to_front (Suc c) as)
               (\<lparr>valid = n_valid (?h' ?n), tag = n_tag (?h' ?n)\<rparr> #
                take (Suc c) xs @ drop (Suc (Suc c)) xs)"
              using rep _ full(1)
            proof (rule relink_set_rep)
              show "0 < Suc c" by simp
              show "n_next (?h' ?n) = p" using kn p by simp
              show "n_next (?h' (as ! (Suc c - 1))) = n_next (h ?n)" using nn by simp
              show "\<forall>x. x \<noteq> as ! (Suc c - 1) \<and> x \<noteq> ?n \<longrightarrow> n_next (?h' x) = n_next (h x)"
                by simp
              show "\<forall>x. x \<noteq> ?n \<longrightarrow> n_valid (?h' x) = n_valid (h x) \<and> n_tag (?h' x) = n_tag (h x)"
                by simp
            qed
            moreover have "\<lparr>valid = n_valid (?h' ?n), tag = n_tag (?h' ?n)\<rparr> = \<lparr>valid = True, tag = t\<rparr>"
              using kn by simp
            moreover from last lx have "drop (Suc (Suc c)) xs = []" by simp
            moreover from clen full(1) have "?k \<in> set as" "?n \<in> set as" by simp_all
            then have "\<forall>x. x \<notin> set as \<longrightarrow> ?h' x = h x" by auto
            ultimately show ?thesis
              using set_move_to_front(1) [OF full(1)] by (auto simp del: fun_upd_apply)
          qed
        qed
        then obtain h' p' bs where "miss_mem t (h, as ! 0) = Some ((h', p'), ev)"
          "set_rep h' p' bs ys" "set bs = set as" "\<forall>x. x \<notin> set as \<longrightarrow> h' x = h x"
          by blast
        moreover with lm nohead_mem p
        have "access_set_mem E t (h, p) = Inr ((h', p'), False, ev)"
          by (auto simp add: access_set_mem_def)
        ultimately show ?thesis using acc by auto
      qed
    qed
  qed
qed

lemma set_rep_cong:
  assumes "\<forall>x \<in> set as. h' x = h x"
  shows "set_rep h' p as xs \<longleftrightarrow> set_rep h p as xs"
proof -
  from assms have "\<forall>x \<in> set as. n_next (h' x) = n_next (h x)" by simp
  then have "seg h' p as None \<longleftrightarrow> seg h p as None" by (rule seg_cong)
  moreover from assms have "lines_at h' as = lines_at h as" by (simp add: lines_at_def)
  ultimately show ?thesis by (simp add: set_rep_def)
qed

text \<open>
  Whatever \<^verbatim>\<open>accessData\<close> does on the lists, the statements on the pointers do on a
  memory that represents them: the same undefined behaviour, or a memory that represents
  the new lists.  In particular the scan of the miss branch ends on every such memory.
\<close>

theorem accessData_mem_simulation:
  assumes rep: "represents m pss g"
  shows "case accessData addr g of
           Inl err \<Rightarrow> accessData_mem addr m = Inl err
         | Inr g' \<Rightarrow> (\<exists>m' pss'. accessData_mem addr m = Inr m' \<and> represents m' pss' g')"
proof (cases "decode (cfg_s g) (cfg_b g) addr")
  case (Inl err)
  with rep show ?thesis
    by (simp add: accessData_access_set accessData_mem_def represents_def)
next
  case (Inr st)
  obtain s_bits t_bits where st: "st = (s_bits, t_bits)" by (cases st)
  from rep have geo: "m_s m = cfg_s g" "m_b m = cfg_b g" "m_E m = cfg_E g"
    and len: "length (m_cache m) = length (cache g)" "length pss = length (cache g)"
    by (simp_all add: represents_def)
  show ?thesis
  proof (cases "s_bits < 0 \<or> int (length (cache g)) \<le> s_bits")
    case True
    with Inr st geo len show ?thesis
      by (simp add: accessData_access_set accessData_mem_def)
  next
    case False
    define i where "i = nat s_bits"
    from False have i: "i < length (cache g)" unfolding i_def by linarith
    let ?h = "m_heap m" and ?p = "m_cache m ! i" and ?as = "pss ! i" and ?xs = "cache g ! i"
    from rep i len have srep: "set_rep ?h ?p ?as ?xs" by (simp add: represents_def)
    note sim = access_set_mem_sim [OF srep, of "cfg_E g" t_bits]
    show ?thesis
    proof (cases "access_set (cfg_E g) t_bits ?xs")
      case (Inl err)
      with sim have "access_set_mem (cfg_E g) t_bits (?h, ?p) = Inl err" by simp
      with Inl Inr st False geo len show ?thesis
        by (simp add: accessData_access_set accessData_mem_def i_def)
    next
      case res: (Inr r)
      obtain ys hit ev where r: "r = (ys, hit, ev)" by (cases r)
      with res sim obtain h' p' bs where
        am: "access_set_mem (cfg_E g) t_bits (?h, ?p) = Inr ((h', p'), hit, ev)"
        and rep': "set_rep h' p' bs ys" and same: "set bs = set ?as"
        and frame: "\<forall>x. x \<notin> set ?as \<longrightarrow> h' x = ?h x" by auto
      let ?g' = "count_access (hit, ev) (g\<lparr>cache := (cache g)[i := ys]\<rparr>)"
      let ?m' = "m\<lparr>m_cache := (m_cache m)[i := p'], m_heap := h',
                    m_hit_count := (if hit then m_hit_count m + 1 else m_hit_count m),
                    m_miss_count := (if hit then m_miss_count m else m_miss_count m + 1),
                    m_eviction_count :=
                      (if ev then m_eviction_count m + 1 else m_eviction_count m)\<rparr>"
      from res r Inr st False have run: "accessData addr g = Inr ?g'"
        by (simp add: accessData_access_set i_def)
      from am Inr st False geo len have run_mem: "accessData_mem addr m = Inr ?m'"
        by (simp add: accessData_mem_def i_def)
      have "represents ?m' (pss[i := bs]) ?g'"
        unfolding represents_def
      proof (intro conjI allI impI)
        fix k assume "k < length (pss[i := bs])"
        then have k: "k < length pss" by simp
        show "set_rep (m_heap ?m') (m_cache ?m' ! k) (pss[i := bs] ! k) (cache ?g' ! k)"
        proof (cases "k = i")
          case True
          with i len rep' show ?thesis by simp
        next
          case False
          with rep k i len have dis: "set (pss ! k) \<inter> set ?as = {}"
            and old: "set_rep ?h (m_cache m ! k) (pss ! k) (cache g ! k)"
            by (simp_all add: represents_def)
          from dis frame have "\<forall>x \<in> set (pss ! k). h' x = ?h x" by blast
          from set_rep_cong [OF this] old False show ?thesis by simp
        qed
      next
        fix k l assume "k < length (pss[i := bs])" "l < length (pss[i := bs])" "k \<noteq> l"
        then have kl: "k < length pss" "l < length pss" "k \<noteq> l" by simp_all
        with rep have "set (pss ! k) \<inter> set (pss ! l) = {}" by (simp add: represents_def)
        moreover have "set (pss[i := bs] ! n) = set (pss ! n)" if "n < length pss" for n
          using that same by (cases "n = i") simp_all
        note this [OF kl(1)] this [OF kl(2)]
        ultimately show "set (pss[i := bs] ! k) \<inter> set (pss[i := bs] ! l) = {}" by simp
      qed (use rep in \<open>simp_all add: represents_def count_access_counters\<close>)
      with run run_mem show ?thesis by auto
    qed
  qed
qed

lemma init_lines_chain:
  assumes "init_lines n prev (h, brk) = (h', brk')" "prev < brk" "n_next (h prev) = None"
  shows "brk' = brk + n \<and> seg h' (n_next (h' prev)) [brk..<brk + n] None \<and>
         (\<forall>x. x < brk \<and> x \<noteq> prev \<longrightarrow> h' x = h x) \<and>
         n_valid (h' prev) = n_valid (h prev) \<and> n_tag (h' prev) = n_tag (h prev) \<and>
         (\<forall>x \<in> set [brk..<brk + n]. \<not> n_valid (h' x) \<and> n_tag (h' x) = 0)"
  using assms
proof (induction n arbitrary: prev h brk)
  case 0
  then show ?case by simp
next
  case (Suc n)
  let ?h1 = "h(prev := (h prev)\<lparr>n_next := Some brk\<rparr>)"
  let ?h2 = "?h1(brk := \<lparr>n_valid = False, n_tag = 0, n_next = None\<rparr>)"
  from Suc.prems(1) have run: "init_lines n brk (?h2, Suc brk) = (h', brk')"
    by (simp add: Let_def)
  have "brk < Suc brk" "n_next (?h2 brk) = None" by simp_all
  from Suc.IH [OF run this]
  have b: "brk' = Suc brk + n"
    and ch: "seg h' (n_next (h' brk)) [Suc brk..<Suc brk + n] None"
    and fr: "\<forall>x. x < Suc brk \<and> x \<noteq> brk \<longrightarrow> h' x = ?h2 x"
    and cont: "n_valid (h' brk) = n_valid (?h2 brk)" "n_tag (h' brk) = n_tag (?h2 brk)"
    and em: "\<forall>x \<in> set [Suc brk..<Suc brk + n]. \<not> n_valid (h' x) \<and> n_tag (h' x) = 0"
    by simp_all
  from Suc.prems(2) fr have p: "h' prev = ?h2 prev" by simp
  with Suc.prems(2) have pn: "n_next (h' prev) = Some brk" by simp
  have up: "[brk..<brk + Suc n] = brk # [Suc brk..<Suc brk + n]"
    by (simp add: upt_conv_Cons)
  from ch pn have "seg h' (n_next (h' prev)) [brk..<brk + Suc n] None"
    unfolding up by simp
  moreover from fr Suc.prems(2) have "\<forall>x. x < brk \<and> x \<noteq> prev \<longrightarrow> h' x = h x" by simp
  moreover from p Suc.prems(2) have "n_valid (h' prev) = n_valid (h prev)" "n_tag (h' prev) = n_tag (h prev)"
    by simp_all
  moreover from em cont have "\<forall>x \<in> set [brk..<brk + Suc n]. \<not> n_valid (h' x) \<and> n_tag (h' x) = 0"
    unfolding up by simp
  ultimately show ?case using b by simp
qed

lemma lines_at_empty:
  assumes "\<forall>x \<in> set as. \<not> n_valid (h x) \<and> n_tag (h x) = 0"
  shows "lines_at h as = replicate (length as) empty_line"
  using assms by (induction as) (simp_all add: lines_at_def empty_line_def)

lemma init_sets_chains:
  assumes "init_sets n E (h, brk) = (sets, h', brk')"
  shows "\<exists>pss. length pss = n \<and> length sets = n \<and> brk \<le> brk' \<and>
           (\<forall>i < n. set_rep h' (sets ! i) (pss ! i)
                       (empty_line # replicate (nat (E - 1)) empty_line) \<and>
                     set (pss ! i) \<subseteq> {brk..<brk'}) \<and>
           (\<forall>i < n. \<forall>j < n. i \<noteq> j \<longrightarrow> set (pss ! i) \<inter> set (pss ! j) = {}) \<and>
           (\<forall>x < brk. h' x = h x)"
  using assms
proof (induction n arbitrary: h brk sets h' brk')
  case 0
  then show ?case by simp
next
  case (Suc n)
  let ?L = "nat (E - 1)"
  let ?h1 = "h(brk := \<lparr>n_valid = False, n_tag = 0, n_next = None\<rparr>)"
  obtain h2 brk2 where il: "init_lines ?L brk (?h1, Suc brk) = (h2, brk2)"
    by (cases "init_lines ?L brk (?h1, Suc brk)")
  obtain sets' h3 brk3 where sets_eq: "init_sets n E (h2, brk2) = (sets', h3, brk3)"
    by (cases "init_sets n E (h2, brk2)") auto
  from Suc.prems il sets_eq have res: "sets = Some brk # sets'" "h' = h3" "brk' = brk3"
    by (simp_all add: Let_def)
  have "brk < Suc brk" "n_next (?h1 brk) = None" by simp_all
  from init_lines_chain [OF il this]
  have b2: "brk2 = Suc brk + ?L"
    and ch: "seg h2 (n_next (h2 brk)) [Suc brk..<Suc brk + ?L] None"
    and fr2: "\<forall>x. x < Suc brk \<and> x \<noteq> brk \<longrightarrow> h2 x = ?h1 x"
    and c2: "n_valid (h2 brk) = n_valid (?h1 brk)" "n_tag (h2 brk) = n_tag (?h1 brk)"
    and em2: "\<forall>x \<in> set [Suc brk..<Suc brk + ?L]. \<not> n_valid (h2 x) \<and> n_tag (h2 x) = 0"
    by simp_all
  let ?as = "[brk..<brk2]"
  have up: "?as = brk # [Suc brk..<Suc brk + ?L]"
    unfolding b2 by (simp add: upt_conv_Cons)
  from ch have seg2: "seg h2 (Some brk) ?as None" unfolding up by simp
  from em2 c2 have "\<forall>x \<in> set ?as. \<not> n_valid (h2 x) \<and> n_tag (h2 x) = 0"
    unfolding up by simp
  from lines_at_empty [OF this] have lines2: "lines_at h2 ?as = empty_line # replicate ?L empty_line"
    unfolding b2 by simp
  from Suc.IH [OF sets_eq] obtain pss where pss: "length pss = n" "length sets' = n" "brk2 \<le> brk3"
    and reps: "\<forall>i < n. set_rep h3 (sets' ! i) (pss ! i) (empty_line # replicate ?L empty_line) \<and>
                 set (pss ! i) \<subseteq> {brk2..<brk3}"
    and dis: "\<forall>i < n. \<forall>j < n. i \<noteq> j \<longrightarrow> set (pss ! i) \<inter> set (pss ! j) = {}"
    and fr3: "\<forall>x < brk2. h3 x = h2 x" by blast
  from fr3 have "\<forall>x \<in> set ?as. h3 x = h2 x" by simp
  from set_rep_cong [OF this] seg2 lines2
  have rep0: "set_rep h3 (Some brk) ?as (empty_line # replicate ?L empty_line)"
    by (simp add: set_rep_def)
  let ?pss = "?as # pss"
  have "length ?pss = Suc n" "length sets = Suc n" "brk \<le> brk'"
    using pss res b2 by simp_all
  moreover have "\<forall>i < Suc n. set_rep h' (sets ! i) (?pss ! i) (empty_line # replicate ?L empty_line) \<and>
                     set (?pss ! i) \<subseteq> {brk..<brk'}"
  proof (intro allI impI)
    fix i assume "i < Suc n"
    show "set_rep h' (sets ! i) (?pss ! i) (empty_line # replicate ?L empty_line) \<and>
                     set (?pss ! i) \<subseteq> {brk..<brk'}"
    proof (cases i)
      case 0
      with rep0 res pss(3) show ?thesis by auto
    next
      case (Suc i')
      with \<open>i < Suc n\<close> reps have "set_rep h3 (sets' ! i') (pss ! i') (empty_line # replicate ?L empty_line)"
        "set (pss ! i') \<subseteq> {brk2..<brk3}" by simp_all
      moreover from b2 have "{brk2..<brk3} \<subseteq> {brk..<brk3}" by auto
      ultimately show ?thesis using Suc res by auto
    qed
  qed
  moreover have "\<forall>i < Suc n. \<forall>j < Suc n. i \<noteq> j \<longrightarrow> set (?pss ! i) \<inter> set (?pss ! j) = {}"
  proof (intro allI impI)
    fix i j assume ij: "i < Suc n" "j < Suc n" "i \<noteq> j"
    have first: "set ?as \<inter> set (pss ! k) = {}" if "k < n" for k
    proof -
      from that reps have "set (pss ! k) \<subseteq> {brk2..<brk3}" by simp
      then show ?thesis by auto
    qed
    show "set (?pss ! i) \<inter> set (?pss ! j) = {}"
    proof (cases i)
      case 0
      with ij obtain j' where "j = Suc j'" "j' < n" by (cases j) auto
      with 0 first [of j'] show ?thesis by simp
    next
      case (Suc i')
      show ?thesis
      proof (cases j)
        case 0
        with Suc ij first [of i'] show ?thesis by (simp add: Int_commute)
      next
        case (Suc j')
        with \<open>i = Suc i'\<close> ij dis show ?thesis by simp
      qed
    qed
  qed
  moreover have "\<forall>x < brk. h' x = h x"
  proof (intro allI impI)
    fix x assume x: "x < brk"
    with b2 fr3 have "h3 x = h2 x" by simp
    also from x fr2 have "h2 x = ?h1 x" by simp
    also from x have "?h1 x = h x" by simp
    finally show "h' x = h x" using res by simp
  qed
  ultimately show ?case by blast
qed

text \<open>
  \<^verbatim>\<open>initCache\<close> on the pointers builds a memory that represents the lists of
  \<^verbatim>\<open>initCache\<close> above, whatever the heap held before.
\<close>

theorem initCache_mem_simulation:
  assumes "m_s m = cfg_s g" "m_b m = cfg_b g" "m_E m = cfg_E g"
    "m_hit_count m = hit_count g" "m_miss_count m = miss_count g"
    "m_eviction_count m = eviction_count g"
  shows "case initCache g of
           Inl err \<Rightarrow> initCache_mem m = Inl err
         | Inr g' \<Rightarrow> (\<exists>m' pss. initCache_mem m = Inr m' \<and> represents m' pss g')"
proof (cases "31 \<le> cfg_s g")
  case True
  with assms show ?thesis by (simp add: initCache_def initCache_mem_def)
next
  case False
  define S :: int where "S = (if cfg_s g < 0 then 0 else 2 ^ nat (cfg_s g))"
  obtain sets h brk where sets_eq: "init_sets (nat S) (cfg_E g) (m_heap m, m_brk m) = (sets, h, brk)"
    by (cases "init_sets (nat S) (cfg_E g) (m_heap m, m_brk m)") auto
  let ?g' = "g\<lparr>cfg_S := S, cache := replicate (nat S) (empty_line # replicate (nat (cfg_E g - 1)) empty_line)\<rparr>"
  let ?m' = "m\<lparr>m_S := S, m_cache := sets, m_heap := h, m_brk := brk\<rparr>"
  have Sfold: "(if cfg_s g < 0 then 0 else 2 ^ nat (cfg_s g)) = S" by (simp add: S_def)
  from False have g': "initCache g = Inr ?g'"
    by (simp add: initCache_def Let_def Sfold)
  from assms(1) have Sfold': "(if m_s m < 0 then 0 else 2 ^ nat (m_s m)) = S"
    by (simp add: S_def)
  have m': "initCache_mem m = Inr ?m'"
    unfolding initCache_mem_def Let_def Sfold' using False assms(1,3) sets_eq by simp
  from init_sets_chains [OF sets_eq] obtain pss where
    "length pss = nat S" "length sets = nat S"
    "\<forall>i < nat S. set_rep h (sets ! i) (pss ! i) (empty_line # replicate (nat (cfg_E g - 1)) empty_line)"
    "\<forall>i < nat S. \<forall>j < nat S. i \<noteq> j \<longrightarrow> set (pss ! i) \<inter> set (pss ! j) = {}"
    by blast
  with assms have "represents ?m' pss ?g'"
    by (simp add: represents_def)
  with g' m' show ?thesis by auto
qed

theorem accessData_mem_seq_simulation:
  assumes "represents m pss g"
  shows "case accessData_seq as g of
           Inl err \<Rightarrow> accessData_mem_seq as m = Inl err
         | Inr g' \<Rightarrow> (\<exists>m' pss'. accessData_mem_seq as m = Inr m' \<and> represents m' pss' g')"
  using assms
proof (induction as arbitrary: m pss g)
  case Nil
  then show ?case by auto
next
  case (Cons a as)
  note sim = accessData_mem_simulation [OF Cons.prems, of a]
  show ?case
  proof (cases "accessData a g")
    case (Inl err)
    with sim show ?thesis by simp
  next
    case (Inr g1)
    with sim obtain m1 pss1 where m1: "accessData_mem a m = Inr m1" "represents m1 pss1 g1"
      by auto
    from Cons.IH [OF m1(2)] Inr m1(1) show ?thesis by (simp split: sum.splits)
  qed
qed

text \<open>
  So every run on the lists, from \<^verbatim>\<open>initCache\<close> through any sequence of accesses, is
  also the run of the statements on the pointers, and its final lists are what the final
  memory holds.  The properties below are stated on the lists.
\<close>

theorem pointer_run_represents:
  assumes "m_s m0 = cfg_s g0" "m_b m0 = cfg_b g0" "m_E m0 = cfg_E g0"
    "m_hit_count m0 = hit_count g0" "m_miss_count m0 = miss_count g0"
    "m_eviction_count m0 = eviction_count g0"
    and init: "initCache g0 = Inr g" and run: "accessData_seq as g = Inr g'"
  shows "\<exists>m m' pss. initCache_mem m0 = Inr m \<and> accessData_mem_seq as m = Inr m' \<and>
           represents m' pss g'"
proof -
  from initCache_mem_simulation [OF assms(1-6)] init
  obtain m pss0 where m: "initCache_mem m0 = Inr m" "represents m pss0 g" by auto
  from accessData_mem_seq_simulation [OF m(2), of as] run
  obtain m' pss where "accessData_mem_seq as m = Inr m'" "represents m' pss g'" by auto
  with m(1) show ?thesis by blast
qed

section \<open>The access step is the LRU step of the specification\<close>

text \<open>
  Claim C1.  On a cache whose selected chain has its \<open>E\<close> lines (\<open>1 \<le> E\<close>), for an
  address that \<^verbatim>\<open>accessData\<close> decodes to a set inside the array, the call is defined
  and is the classify step of the specification on the tags of the valid lines of that
  set: a tag that is present counts a hit and moves to the front, the others keeping
  their order; a tag that is absent counts a miss and is put at the front, and when the
  set already holds \<open>E\<close> valid lines the last one is dropped and an eviction is counted.
\<close>

theorem accessData_lru_step:
  assumes E: "1 \<le> cfg_E g"
    and dec: "decode (cfg_s g) (cfg_b g) addr = Inr (s_bits, t_bits)"
    and range: "0 \<le> s_bits" "s_bits < int (length (cache g))"
    and len: "int (length (cache g ! nat s_bits)) = cfg_E g"
  shows "\<exists>g'. accessData addr g = Inr g' \<and>
     (case lru_access (nat (cfg_E g)) t_bits (valid_tags (cache g ! nat s_bits)) of
        (out, ts) \<Rightarrow>
          valid_tags (cache g' ! nat s_bits) = ts \<and>
          hit_count g' = (if out = Hit then hit_count g + 1 else hit_count g) \<and>
          miss_count g' = (if out = Hit then miss_count g else miss_count g + 1) \<and>
          eviction_count g' = (if out = MissEvict then eviction_count g + 1 else eviction_count g))"
proof -
  from access_set_lru [OF len E, of t_bits]
  obtain ys hit ev where acc: "access_set (cfg_E g) t_bits (cache g ! nat s_bits) = Inr (ys, hit, ev)"
    and lru: "lru_access (nat (cfg_E g)) t_bits (valid_tags (cache g ! nat s_bits)) =
      (if hit then Hit else if ev then MissEvict else MissClean, valid_tags ys)"
    by blast
  have noev: "hit \<Longrightarrow> \<not> ev"
    using acc by (cases rule: access_set_Inr) auto
  let ?g' = "count_access (hit, ev) (g\<lparr>cache := (cache g)[nat s_bits := ys]\<rparr>)"
  have run: "accessData addr g = Inr ?g'"
    using dec range acc by (rule accessData_defined)
  from range have "cache ?g' ! nat s_bits = ys" by simp
  with lru noev have "case lru_access (nat (cfg_E g)) t_bits (valid_tags (cache g ! nat s_bits)) of
        (out, ts) \<Rightarrow>
          valid_tags (cache ?g' ! nat s_bits) = ts \<and>
          hit_count ?g' = (if out = Hit then hit_count g + 1 else hit_count g) \<and>
          miss_count ?g' = (if out = Hit then miss_count g else miss_count g + 1) \<and>
          eviction_count ?g' = (if out = MissEvict then eviction_count g + 1 else eviction_count g)"
    by (auto simp add: count_access_counters)
  with run show ?thesis by (intro exI [of _ ?g'] conjI)
qed

theorem accessData_lru_step_witness:
  "1 \<le> cfg_E example_full \<and>
   decode (cfg_s example_full) (cfg_b example_full) 12 = Inr (0, 3) \<and>
   int (length (cache example_full ! nat 0)) = cfg_E example_full \<and>
   (\<exists>g'. accessData 12 example_full = Inr g' \<and> valid_tags (cache g' ! 0) = [3, 1] \<and>
      hit_count g' = 0 \<and> miss_count g' = 1 \<and> eviction_count g' = 1)"
proof -
  have h1: "1 \<le> cfg_E example_full" by (simp add: example_full_def)
  have h2: "decode (cfg_s example_full) (cfg_b example_full) 12 = Inr (0, 3)"
    by (simp add: example_full_def decode_example)
  have h3: "(0::int) \<le> 0" by simp
  have h4: "0 < int (length (cache example_full))" by (simp add: example_full_def)
  have h5: "int (length (cache example_full ! nat 0)) = cfg_E example_full"
    by (simp add: example_full_def)
  from accessData_lru_step [OF h1 h2 h3 h4 h5] h1 h2 h5 show ?thesis
    by (simp add: example_full_def lru_access_def valid_tags_def)
qed

section \<open>The second access of a modify record\<close>

text \<open>
  Claim C6.  Whenever a call of \<^verbatim>\<open>accessData\<close> on an address is defined, in any state
  of the cache, it leaves a valid line with the tag of the address at the head of the
  selected chain, and a second call on the same address is a hit: it increments
  \<^verbatim>\<open>hit_count\<close> and changes nothing else.  These are the two calls that
  \<^verbatim>\<open>replayTrace\<close> makes for an \<^verbatim>\<open>M\<close> record.
\<close>

theorem second_access_hits:
  assumes "accessData addr g = Inr g1"
  shows "accessData addr g1 = Inr (g1\<lparr>hit_count := hit_count g1 + 1\<rparr>) \<and>
    (\<exists>s_bits t_bits. decode (cfg_s g) (cfg_b g) addr = Inr (s_bits, t_bits) \<and>
       cache g1 ! nat s_bits \<noteq> [] \<and>
       valid (cache g1 ! nat s_bits ! 0) \<and> tag (cache g1 ! nat s_bits ! 0) = t_bits)"
  using assms
proof (cases rule: accessData_Inr)
  case (1 s_bits t_bits ys hit ev)
  from access_set_head [OF 1(4)]
  have ys: "ys \<noteq> []" "t_bits = tag (ys ! 0)" "valid (ys ! 0)" by auto
  from 1(3,5) 1(2) have sel: "cache g1 ! nat s_bits = ys" by simp
  from 1(5) have geo: "cfg_s g1 = cfg_s g" "cfg_b g1 = cfg_b g" "length (cache g1) = length (cache g)"
    by simp_all
  have "access_set (cfg_E g1) t_bits (cache g1 ! nat s_bits) = Inr (ys, True, False)"
    unfolding sel using ys by (simp add: access_set_def)
  with 1(1,2,3) geo
  have "accessData addr g1 = Inr (count_access (True, False) (g1\<lparr>cache := (cache g1)[nat s_bits := ys]\<rparr>))"
    by (intro accessData_defined) simp_all
  moreover have "(cache g1)[nat s_bits := ys] = cache g1"
    using sel by (metis list_update_id)
  ultimately have "accessData addr g1 = Inr (g1\<lparr>hit_count := hit_count g1 + 1\<rparr>)"
    by (simp add: count_access_def)
  with 1(1) sel ys show ?thesis by auto
qed

theorem second_access_hits_witness:
  "accessData 12 example_full = Inr example_evicted \<and>
   accessData 12 example_evicted = Inr (example_evicted\<lparr>hit_count := 1\<rparr>) \<and>
   miss_count example_evicted = 1"
  using second_access_hits [OF accessData_example_full] accessData_example_full
  by (simp add: example_evicted_def)

section \<open>What accessData leaves unchanged\<close>

text \<open>
  Claim C9.  A call of \<^verbatim>\<open>accessData\<close> changes at most the chain of the set that the
  address decodes to and the three counters: the geometry globals keep their values, the
  array keeps its length, and every other set keeps its lines in their order.
\<close>

theorem accessData_frame:
  assumes "accessData addr g = Inr g'" and "decode (cfg_s g) (cfg_b g) addr = Inr (s_bits, t_bits)"
  shows "cfg_s g' = cfg_s g \<and> cfg_b g' = cfg_b g \<and> cfg_E g' = cfg_E g \<and> cfg_S g' = cfg_S g \<and>
    length (cache g') = length (cache g) \<and>
    (\<forall>j. j \<noteq> nat s_bits \<longrightarrow> cache g' ! j = cache g ! j)"
  using assms(1)
proof (cases rule: accessData_Inr)
  case (1 s_bits' t_bits' ys hit ev)
  with assms(2) have "s_bits' = s_bits" by simp
  with 1(5) show ?thesis by simp
qed

theorem accessData_frame_witness:
  "accessData 12 example_full = Inr example_evicted \<and>
   decode (cfg_s example_full) (cfg_b example_full) 12 = Inr (0, 3) \<and>
   cfg_s example_evicted = 1 \<and> cfg_b example_evicted = 1 \<and> cfg_E example_evicted = 2 \<and>
   cfg_S example_evicted = 2 \<and> length (cache example_evicted) = 2 \<and>
   cache example_evicted ! 1 = cache example_full ! 1"
proof -
  have h: "decode (cfg_s example_full) (cfg_b example_full) 12 = Inr (0, 3)"
    by (simp add: example_full_def decode_example)
  from accessData_frame [OF accessData_example_full h] accessData_example_full h
  show ?thesis by (simp add: example_full_def)
qed

section \<open>Invalid lines\<close>

text \<open>
  Claim C10.  An access to a set whose lines are all invalid is a miss, never a hit,
  whatever tags the invalid lines hold: in particular an address with tag 0 misses on the
  lines that \<^verbatim>\<open>initCache\<close> has set to \<^verbatim>\<open>valid = 0\<close>, \<^verbatim>\<open>tag = 0\<close>.
\<close>

theorem invalid_line_never_hits:
  assumes E: "1 \<le> cfg_E g"
    and dec: "decode (cfg_s g) (cfg_b g) addr = Inr (s_bits, t_bits)"
    and range: "0 \<le> s_bits" "s_bits < int (length (cache g))"
    and len: "int (length (cache g ! nat s_bits)) = cfg_E g"
    and inv: "\<forall>x \<in> set (cache g ! nat s_bits). \<not> valid x"
  shows "\<exists>g'. accessData addr g = Inr g' \<and> hit_count g' = hit_count g \<and>
    miss_count g' = miss_count g + 1 \<and> eviction_count g' = eviction_count g"
proof -
  from access_set_lru [OF len E, of t_bits]
  obtain ys hit ev where acc: "access_set (cfg_E g) t_bits (cache g ! nat s_bits) = Inr (ys, hit, ev)"
    by blast
  from access_set_all_invalid [OF acc inv] have "\<not> hit" "\<not> ev" by auto
  moreover from dec range acc
  have "accessData addr g = Inr (count_access (hit, ev) (g\<lparr>cache := (cache g)[nat s_bits := ys]\<rparr>))"
    by (rule accessData_defined)
  ultimately show ?thesis by (simp add: count_access_counters)
qed

theorem invalid_line_never_hits_witness:
  "decode (cfg_s example_fresh) (cfg_b example_fresh) 0 = Inr (0, 0) \<and>
   tag (cache example_fresh ! 0 ! 0) = 0 \<and> \<not> valid (cache example_fresh ! 0 ! 0) \<and>
   tag (cache example_fresh ! 0 ! 1) = 0 \<and> \<not> valid (cache example_fresh ! 0 ! 1) \<and>
   (\<exists>g'. accessData 0 example_fresh = Inr g' \<and> hit_count g' = 0 \<and> miss_count g' = 1 \<and>
      eviction_count g' = 0)"
proof -
  have h1: "1 \<le> cfg_E example_fresh" by (simp add: example_fresh_def)
  have h2: "decode (cfg_s example_fresh) (cfg_b example_fresh) 0 = Inr (0, 0)"
    by (simp add: example_fresh_def decode_example)
  have h3: "(0::int) \<le> 0" by simp
  have h4: "0 < int (length (cache example_fresh))" by (simp add: example_fresh_def)
  have h5: "int (length (cache example_fresh ! nat 0)) = cfg_E example_fresh"
    by (simp add: example_fresh_def)
  have h6: "\<forall>x \<in> set (cache example_fresh ! nat 0). \<not> valid x"
    by (simp add: example_fresh_def empty_line_def)
  from invalid_line_never_hits [OF h1 h2 h3 h4 h5 h6] h2 show ?thesis
    by (simp add: example_fresh_def empty_line_def)
qed

section \<open>The invariant of the sets\<close>

lemma lru_access_distinct:
  assumes "distinct ts"
  shows "distinct (snd (lru_access E t ts))"
proof -
  have "t \<notin> set (butlast ts)" if "t \<notin> set ts"
    using that by (auto dest: in_set_butlastD)
  with assms show ?thesis
    by (auto simp add: lru_access_def distinct_butlast)
qed

lemma initCache_Inr:
  assumes "initCache g0 = Inr g"
  shows "cfg_s g = cfg_s g0" "cfg_b g = cfg_b g0" "cfg_E g = cfg_E g0"
    "hit_count g = hit_count g0" "miss_count g = miss_count g0" "eviction_count g = eviction_count g0"
    "cfg_s g0 < 31"
    "cache g = replicate (if cfg_s g0 < 0 then 0 else 2 ^ nat (cfg_s g0))
       (replicate (Suc (nat (cfg_E g0 - 1))) empty_line)"
  using assms by (auto simp add: initCache_def Let_def split: if_splits)

lemma initCache_chains_ok:
  assumes "1 \<le> cfg_E g0" "initCache g0 = Inr g"
  shows "chains_ok g"
  using assms(1) initCache_Inr(3,8) [OF assms(2)] by (auto simp add: chains_ok_def)

lemma valid_tags_empty_lines [simp]: "valid_tags (replicate n empty_line) = []"
  by (simp add: valid_tags_def empty_line_def)

lemma initCache_invariant:
  assumes "1 \<le> cfg_E g0" "initCache g0 = Inr g"
  shows "cache_invariant g"
  using assms(1) initCache_Inr(3,8) [OF assms(2)]
  by (auto simp add: cache_invariant_def set_invariant_def empty_line_def valid_tags_def)

lemma accessData_chains_ok:
  assumes "chains_ok g" "accessData addr g = Inr g'"
  shows "chains_ok g'"
  using assms(2)
proof (cases rule: accessData_Inr)
  case (1 s_bits t_bits ys hit ev)
  from 1(2,3) have sel: "cache g ! nat s_bits \<in> set (cache g)" by simp
  with assms(1) access_set_length [OF 1(4)] have "int (length ys) = cfg_E g"
    by (simp add: chains_ok_def)
  moreover have "set ((cache g)[nat s_bits := ys]) \<subseteq> insert ys (set (cache g))"
    by (rule set_update_subset_insert)
  ultimately show ?thesis using assms(1) 1(5)
    by (auto simp add: chains_ok_def)
qed

lemma accessData_invariant:
  assumes ok: "chains_ok g" and inv: "cache_invariant g" and run: "accessData addr g = Inr g'"
  shows "cache_invariant g'"
  using run
proof (cases rule: accessData_Inr)
  case (1 s_bits t_bits ys hit ev)
  let ?xs = "cache g ! nat s_bits"
  from 1(2,3) have sel: "?xs \<in> set (cache g)" by simp
  with ok have len: "int (length ?xs) = cfg_E g" and E: "1 \<le> cfg_E g"
    by (simp_all add: chains_ok_def)
  from access_set_lru [OF len E, of t_bits] 1(4)
  have lru: "valid_tags ys = snd (lru_access (nat (cfg_E g)) t_bits (valid_tags ?xs))"
    by auto
  from inv sel have "distinct (valid_tags ?xs)"
    by (simp add: cache_invariant_def set_invariant_def)
  then have d: "distinct (valid_tags ys)"
    unfolding lru by (rule lru_access_distinct)
  have "length (filter valid ys) \<le> length ys" by simp
  with access_set_length [OF 1(4)] len have "int (length (filter valid ys)) \<le> cfg_E g"
    by simp
  with d have ys: "set_invariant (cfg_E g) ys" by (simp add: set_invariant_def)
  have "set ((cache g)[nat s_bits := ys]) \<subseteq> insert ys (set (cache g))"
    by (rule set_update_subset_insert)
  with ys inv 1(5) show ?thesis
    by (auto simp add: cache_invariant_def)
qed

lemma accessData_seq_invariant:
  assumes "chains_ok g" "cache_invariant g" "accessData_seq as g = Inr g'"
  shows "chains_ok g' \<and> cache_invariant g'"
  using assms
proof (induction as arbitrary: g)
  case Nil
  then show ?case by simp
next
  case (Cons a as)
  from Cons.prems(3) obtain g1 where g1: "accessData a g = Inr g1" "accessData_seq as g1 = Inr g'"
    by (auto split: sum.splits)
  from Cons.prems(1) g1(1) have "chains_ok g1" by (rule accessData_chains_ok)
  moreover from Cons.prems(1,2) g1(1) have "cache_invariant g1" by (rule accessData_invariant)
  ultimately show ?case using g1(2) by (rule Cons.IH)
qed

text \<open>
  Every call is defined on a well-formed state and keeps it well-formed, so every
  sequence of accesses on the cache that \<^verbatim>\<open>initCache\<close> builds runs to its end when
  \<open>1 \<le> E\<close>, \<open>0 \<le> s \<le> 30\<close>, \<open>0 \<le> b\<close> and \<open>s + b \<le> 31\<close>.
\<close>

lemma accessData_total:
  assumes "well_formed g"
  shows "\<exists>g'. accessData addr g = Inr g' \<and> well_formed g'"
proof -
  let ?i = "uint (take_bit (nat (cfg_s g)) (drop_bit (nat (cfg_b g)) addr))"
  from assms have geo: "0 \<le> cfg_s g" "0 \<le> cfg_b g" "cfg_s g + cfg_b g \<le> 31"
    and ok: "chains_ok g" and n: "length (cache g) = 2 ^ nat (cfg_s g)"
    by (simp_all add: well_formed_def)
  have dec: "decode (cfg_s g) (cfg_b g) addr = Inr (?i, drop_bit (nat (cfg_s g + cfg_b g)) addr)"
    using geo by (rule decode_in_range)
  have lo: "0 \<le> ?i" by simp
  have "?i < 2 ^ nat (cfg_s g)"
    by (simp add: unsigned_take_bit_eq)
  with n have hi: "?i < int (length (cache g))" by simp
  with lo have "nat ?i < length (cache g)" by linarith
  then have "cache g ! nat ?i \<in> set (cache g)" by (rule nth_mem)
  with ok have E: "1 \<le> cfg_E g" and len: "int (length (cache g ! nat ?i)) = cfg_E g"
    by (simp_all add: chains_ok_def)
  from E dec lo hi len obtain g' where run: "accessData addr g = Inr g'"
    by (rule accessData_step)
  from ok run have "chains_ok g'" by (rule accessData_chains_ok)
  moreover from accessData_unchanged [OF run] geo n
  have "0 \<le> cfg_s g'" "0 \<le> cfg_b g'" "cfg_s g' + cfg_b g' \<le> 31"
    "length (cache g') = 2 ^ nat (cfg_s g')" by simp_all
  ultimately have "well_formed g'" by (simp add: well_formed_def)
  with run show ?thesis by blast
qed

lemma accessData_seq_total:
  assumes "well_formed g"
  shows "\<exists>g'. accessData_seq as g = Inr g' \<and> well_formed g'"
  using assms
proof (induction as arbitrary: g)
  case Nil
  then show ?case by simp
next
  case (Cons a as)
  from accessData_total [OF Cons.prems, of a]
  obtain g1 where "accessData a g = Inr g1" "well_formed g1" by blast
  with Cons.IH [of g1] show ?case by simp
qed

lemma initCache_well_formed:
  assumes "1 \<le> cfg_E g0" "0 \<le> cfg_s g0" "0 \<le> cfg_b g0" "cfg_s g0 + cfg_b g0 \<le> 31"
    and "cfg_s g0 \<le> 30"
  shows "\<exists>g. initCache g0 = Inr g \<and> well_formed g"
proof -
  from assms(5) have "cfg_s g0 < 31" by linarith
  with assms(2) obtain g where g: "initCache g0 = Inr g"
    by (simp add: initCache_def Let_def)
  from assms(1) g have "chains_ok g" by (rule initCache_chains_ok)
  with initCache_Inr [OF g] assms show ?thesis
    using g by (simp add: well_formed_def)
qed

text \<open>
  Claim C3.  For an associativity \<open>1 \<le> E\<close>, the invariant of the specification (at
  most \<open>E\<close> valid lines in a set, no two valid lines of a set with the same tag) holds
  for the cache that \<^verbatim>\<open>initCache\<close> builds and after every sequence of calls of
  \<^verbatim>\<open>accessData\<close> on it.
\<close>

theorem cache_invariant_every_sequence:
  assumes "1 \<le> cfg_E g0" and "initCache g0 = Inr g" and "accessData_seq as g = Inr g'"
  shows "cache_invariant g'"
proof -
  from assms(1,2) have "chains_ok g" by (rule initCache_chains_ok)
  moreover from assms(1,2) have "cache_invariant g" by (rule initCache_invariant)
  ultimately show ?thesis using assms(3) by (blast dest: accessData_seq_invariant)
qed


theorem cache_invariant_every_sequence_witness:
  "1 \<le> cfg_E (start_globals 1 2 1) \<and> initCache (start_globals 1 2 1) = Inr example_fresh \<and>
   accessData_seq [8, 4, 12] example_fresh = Inr (example_evicted\<lparr>miss_count := 3\<rparr>) \<and>
   cache_invariant (example_evicted\<lparr>miss_count := 3\<rparr>)"
proof -
  have h1: "1 \<le> cfg_E (start_globals 1 2 1)" by (simp add: start_globals_def)
  have h2: "initCache (start_globals 1 2 1) = Inr example_fresh"
    by (simp add: start_globals_def initCache_def example_fresh_def eval_nat_numeral)
  have h3: "accessData_seq [8, 4, 12] example_fresh = Inr (example_evicted\<lparr>miss_count := 3\<rparr>)"
    by (simp add: accessData_def decode_def set_mask_def example_fresh_def example_evicted_def
        empty_line_def hit_loop.simps miss_fill_def scan_open.simps)
  from cache_invariant_every_sequence [OF h1 h2 h3] h1 h2 h3 show ?thesis by simp
qed

section \<open>Properties of replayTrace\<close>

lemma fgets_store_second:
  assumes "line \<noteq> []"
  shows "fgets_store line buf ! 1 = (if 1 < length line then line ! 1 else NUL)"
proof (cases "1 < length line")
  case True
  then show ?thesis by (simp add: fgets_store_def nth_append)
next
  case False
  with assms have "length line = 1" by (cases line) auto
  then show ?thesis by (simp add: fgets_store_def nth_append)
qed

lemma NUL_not_letter: "NUL \<noteq> CHR ''S''" "NUL \<noteq> CHR ''L''" "NUL \<noteq> CHR ''M''"
  by (simp_all add: NUL_def)

lemma fgets_store_recognised:
  assumes "line \<noteq> []"
  shows "(fgets_store line buf ! 1 = CHR ''S'' \<or> fgets_store line buf ! 1 = CHR ''L'' \<or>
          fgets_store line buf ! 1 = CHR ''M'') \<longleftrightarrow> recognised line"
    and "recognised line \<Longrightarrow> fgets_store line buf ! 1 = line ! 1"
  unfolding fgets_store_second [OF assms] recognised_def using NUL_not_letter by auto

lemma replay_line_skip:
  assumes "line \<noteq> []" "\<not> recognised line"
  shows "replay_line scan line (buf, addr, g) = Inr (fgets_store line buf, addr, g)"
  using fgets_store_recognised(1) [OF assms(1), of buf] assms(2)
  by (simp add: replay_line_def Let_def)

lemma replay_line_service:
  assumes "line \<noteq> []" "recognised line"
  shows "replay_line scan line (buf, addr, g) =
     (case accessData_seq (replicate (accesses_of line) (parsed_addr scan line buf addr)) g of
        Inl e \<Rightarrow> Inl e
      | Inr g' \<Rightarrow> Inr (fgets_store line buf, parsed_addr scan line buf addr, g'))"
proof -
  note rec = fgets_store_recognised [OF assms(1), of buf]
  from rec(1) assms(2)
  have test: "fgets_store line buf ! 1 = CHR ''S'' \<or> fgets_store line buf ! 1 = CHR ''L'' \<or>
          fgets_store line buf ! 1 = CHR ''M''" by simp
  from rec(2) assms(2) have second: "fgets_store line buf ! 1 = line ! 1" by simp
  show ?thesis
  proof (cases "line ! 1 = CHR ''M''")
    case True
    with assms(2) have "accesses_of line = 2" by (simp add: accesses_of_def)
    with True second show ?thesis
      by (simp add: replay_line_def Let_def parsed_addr_def numeral_2_eq_2 split: sum.splits)
  next
    case False
    with assms(2) have "accesses_of line = 1" by (simp add: accesses_of_def)
    with False second test show ?thesis
      by (simp add: replay_line_def Let_def parsed_addr_def split: sum.splits)
  qed
qed

lemma accessData_counts_one:
  assumes "accessData addr g = Inr g'"
  shows "(hit_count g' = hit_count g + 1 \<and> miss_count g' = miss_count g) \<or>
         (hit_count g' = hit_count g \<and> miss_count g' = miss_count g + 1)"
  using assms by (cases rule: accessData_Inr) (auto simp add: count_access_counters)

lemma accessData_seq_counts:
  assumes "accessData_seq as g = Inr g'"
  shows "\<exists>h m. h + m = length as \<and> hit_count g' = hit_count g + word_of_nat h \<and>
           miss_count g' = miss_count g + word_of_nat m"
  using assms
proof (induction as arbitrary: g)
  case Nil
  then show ?case by simp
next
  case (Cons a as)
  from Cons.prems obtain g1 where g1: "accessData a g = Inr g1" "accessData_seq as g1 = Inr g'"
    by (auto split: sum.splits)
  from Cons.IH [OF g1(2)] obtain h m where hm: "h + m = length as"
    "hit_count g' = hit_count g1 + word_of_nat h" "miss_count g' = miss_count g1 + word_of_nat m"
    by blast
  from accessData_counts_one [OF g1(1)] show ?case
  proof
    assume "hit_count g1 = hit_count g + 1 \<and> miss_count g1 = miss_count g"
    with hm have "Suc h + m = length (a # as)"
      "hit_count g' = hit_count g + word_of_nat (Suc h)" "miss_count g' = miss_count g + word_of_nat m"
      by simp_all
    then show ?thesis by blast
  next
    assume "hit_count g1 = hit_count g \<and> miss_count g1 = miss_count g + 1"
    with hm have "h + Suc m = length (a # as)"
      "hit_count g' = hit_count g + word_of_nat h" "miss_count g' = miss_count g + word_of_nat (Suc m)"
      by simp_all
    then show ?thesis by blast
  qed
qed

lemma replay_line_counts:
  assumes "line \<noteq> []" "replay_line scan line (buf, addr, g) = Inr (buf', addr', g')"
  shows "\<exists>h m. h + m = accesses_of line \<and> hit_count g' = hit_count g + word_of_nat h \<and>
           miss_count g' = miss_count g + word_of_nat m"
proof (cases "recognised line")
  case False
  with assms replay_line_skip [OF assms(1) False, of scan buf addr g]
  have "g' = g" "accesses_of line = 0" by (simp_all add: accesses_of_def)
  then show ?thesis by simp
next
  case True
  from assms(2) replay_line_service [OF assms(1) True, of scan buf addr g]
  have "accessData_seq (replicate (accesses_of line) (parsed_addr scan line buf addr)) g = Inr g'"
    by (auto split: sum.splits)
  from accessData_seq_counts [OF this] show ?thesis by simp
qed

lemma replay_lines_counts:
  assumes "[] \<notin> set lines" "replay_lines scan lines (buf, addr, g) = Inr (buf', addr', g')"
  shows "\<exists>h m. h + m = serviced_accesses lines \<and> hit_count g' = hit_count g + word_of_nat h \<and>
           miss_count g' = miss_count g + word_of_nat m"
  using assms
proof (induction lines arbitrary: buf addr g)
  case Nil
  then show ?case by (simp add: serviced_accesses_def)
next
  case (Cons line rest)
  from Cons.prems(2) obtain buf1 addr1 g1 where
    st: "replay_line scan line (buf, addr, g) = Inr (buf1, addr1, g1)"
      "replay_lines scan rest (buf1, addr1, g1) = Inr (buf', addr', g')"
    by (auto split: sum.splits)
  from Cons.prems(1) have ne: "line \<noteq> []" "[] \<notin> set rest" by auto
  from replay_line_counts [OF ne(1) st(1)] obtain h1 m1 where
    one: "h1 + m1 = accesses_of line" "hit_count g1 = hit_count g + word_of_nat h1"
      "miss_count g1 = miss_count g + word_of_nat m1" by blast
  from Cons.IH [OF ne(2) st(2)] obtain h2 m2 where
    two: "h2 + m2 = serviced_accesses rest" "hit_count g' = hit_count g1 + word_of_nat h2"
      "miss_count g' = miss_count g1 + word_of_nat m2" by blast
  from one two have "(h1 + h2) + (m1 + m2) = serviced_accesses (line # rest)"
    "hit_count g' = hit_count g + word_of_nat (h1 + h2)"
    "miss_count g' = miss_count g + word_of_nat (m1 + m2)"
    by (simp_all add: serviced_accesses_def)
  then show ?case by blast
qed

lemma replicate_one_two: "replicate 1 a = [a]" "replicate 2 a = [a, a]"
  by (simp_all add: numeral_2_eq_2)

lemma scan_examples:
  "scan_hex (c_string_at 3 (fgets_store '' L 0,1\<newline>'' buf)) = Some 0"
  "scan_hex (c_string_at 3 (fgets_store '' M 8,1\<newline>'' buf)) = Some 8"
  by (simp_all add: scan_hex_def c_string_at_def fgets_store_def NUL_def hex_digit_def)

lemma recognised_examples:
  "recognised '' L 0,1\<newline>''" "\<not> recognised ''I 4,1\<newline>''" "recognised '' M 8,1\<newline>''"
  by (simp_all add: recognised_def)

lemma example_trace_run:
  "replayTrace scan_hex [] (Some example_trace) example_fresh = Inr example_replayed"
  by (simp add: replayTrace_def example_trace_def replay_line_service replay_line_skip
      recognised_examples accesses_of_def parsed_addr_def scan_examples
      accessData_def decode_def set_mask_def example_fresh_def example_replayed_def
      empty_line_def hit_loop.simps miss_fill_def scan_open.simps replicate_one_two)

text \<open>
  Claim C5.  When the replay of a trace returns, \<^verbatim>\<open>hit_count\<close> has grown by some
  \<open>h\<close> and \<^verbatim>\<open>miss_count\<close> by some \<open>m\<close> with \<open>h + m\<close> the number of serviced
  accesses, one for each recognised \<^verbatim>\<open>L\<close> or \<^verbatim>\<open>S\<close> line and two for each
  recognised \<^verbatim>\<open>M\<close> line: every call of \<^verbatim>\<open>accessData\<close> increments exactly one of
  the two counters by one.  The counters are 0 when \<^verbatim>\<open>main\<close> starts the replay, so their
  final values are \<open>h\<close> and \<open>m\<close> (as 32-bit values).  The lines are the strings that
  \<^verbatim>\<open>fgets\<close> returns, which are never empty.
\<close>

theorem replayTrace_conservation:
  assumes "[] \<notin> set lines" and "replayTrace scan buf_init (Some lines) g = Inr g'"
  shows "\<exists>h m. h + m = serviced_accesses lines \<and>
           hit_count g' = hit_count g + word_of_nat h \<and>
           miss_count g' = miss_count g + word_of_nat m"
proof -
  from assms(2) obtain buf' addr' where
    "replay_lines scan lines (buf_init, 0, g) = Inr (buf', addr', g')"
    by (auto simp add: replayTrace_def split: sum.splits)
  with assms(1) show ?thesis by (rule replay_lines_counts)
qed

theorem replayTrace_conservation_witness:
  "serviced_accesses example_trace = 3 \<and>
   replayTrace scan_hex [] (Some example_trace) example_fresh = Inr example_replayed \<and>
   (\<exists>h m. h + m = serviced_accesses example_trace \<and>
      hit_count example_replayed = hit_count example_fresh + word_of_nat h \<and>
      miss_count example_replayed = miss_count example_fresh + word_of_nat m)"
proof -
  have h1: "[] \<notin> set example_trace" by (simp add: example_trace_def)
  have n: "serviced_accesses example_trace = 3"
    by (simp add: serviced_accesses_def example_trace_def accesses_of_def recognised_def)
  from replayTrace_conservation [OF h1 example_trace_run] n example_trace_run
  show ?thesis by simp
qed

subsection \<open>The lines of the file and the calls of fgets\<close>

lemma first_line_Nil: "first_line [] = ([], [])"
  by (simp add: first_line_def)

lemma first_line_Cons:
  "first_line (c # cs) =
     (if c = CHR ''\<newline>'' then ([c], cs)
      else (case first_line cs of (line, rest) \<Rightarrow> (c # line, rest)))"
  by (cases "dropWhile (\<lambda>c. c \<noteq> CHR ''\<newline>'') cs") (simp_all add: first_line_def del: dropWhile_eq_Nil_conv)

lemma first_line_append: "first_line stream = (line, rest) \<Longrightarrow> stream = line @ rest"
proof (induction stream arbitrary: line rest)
  case Nil
  then show ?case by (simp add: first_line_Nil)
next
  case (Cons c cs)
  then show ?case by (auto simp add: first_line_Cons split: if_splits prod.splits)
qed

lemma first_line_nonempty: "stream \<noteq> [] \<Longrightarrow> first_line stream = (line, rest) \<Longrightarrow> line \<noteq> []"
  by (cases stream) (auto simp add: first_line_Cons split: if_splits prod.splits)

lemma fgets_read_first_line:
  "first_line stream = (line, rest) \<Longrightarrow> length line \<le> n \<Longrightarrow> fgets_read n stream = (line, rest)"
proof (induction n stream arbitrary: line rest rule: fgets_read.induct)
  case (1 stream)
  then show ?case by (cases stream) (auto simp add: first_line_Nil first_line_Cons split: if_splits prod.splits)
next
  case (2 n)
  then show ?case by (simp add: first_line_Nil)
next
  case (3 n c stream)
  then show ?case by (auto simp add: first_line_Cons split: if_splits prod.splits)
qed

lemma fgets_first_line:
  assumes "stream \<noteq> []" "first_line stream = (line, rest)" "length line \<le> 999"
  shows "fgets 1000 stream = Some (line, rest)"
  using assms(1) fgets_read_first_line [OF assms(2), of 999] assms(3) by (simp add: fgets_def)

lemma trace_reads_first_line:
  assumes "stream \<noteq> []" "first_line stream = (line, rest)" "length line \<le> 999"
  shows "trace_reads stream = line # trace_reads rest"
  using fgets_first_line [OF assms] by (simp add: trace_reads.simps [of stream])

lemma fgets_read_nonempty: "stream \<noteq> [] \<Longrightarrow> fst (fgets_read (Suc n) stream) \<noteq> []"
  by (cases stream) (auto split: prod.splits)

lemma trace_reads_nonempty: "[] \<notin> set (trace_reads stream)"
proof (induction stream rule: trace_reads.induct)
  case (1 stream)
  show ?case
  proof (cases "fgets 1000 stream")
    case None
    then show ?thesis by (simp add: trace_reads.simps [of stream])
  next
    case (Some pr)
    obtain piece rest where pr: "pr = (piece, rest)" by (cases pr)
    from Some pr have ne: "stream \<noteq> []" and r: "fgets_read 999 stream = (piece, rest)"
      by (simp_all add: fgets_def split: if_splits)
    have e: "(999 :: nat) = Suc 998" by simp
    from fgets_read_nonempty [OF ne, of 998] r [unfolded e] have "piece \<noteq> []" by simp
    moreover from 1 [OF Some pr [symmetric]] have "[] \<notin> set (trace_reads rest)" .
    ultimately show ?thesis using Some pr by (simp add: trace_reads.simps [of stream])
  qed
qed

lemma trace_reads_concat: "concat (trace_reads stream) = stream"
proof (induction stream rule: trace_reads.induct)
  case (1 stream)
  have cat: "fgets_read n cs = (piece, rest) \<Longrightarrow> cs = piece @ rest" for n cs piece rest
    by (induction n cs arbitrary: piece rest rule: fgets_read.induct)
      (auto split: if_splits prod.splits)
  show ?case
  proof (cases "fgets 1000 stream")
    case None
    then show ?thesis by (simp add: trace_reads.simps [of stream] fgets_def split: if_splits)
  next
    case (Some pr)
    obtain piece rest where pr: "pr = (piece, rest)" by (cases pr)
    from Some pr have r: "fgets_read 999 stream = (piece, rest)"
      by (simp_all add: fgets_def split: if_splits)
    from Some pr have "trace_reads stream = piece # trace_reads rest"
      by (simp add: trace_reads.simps [of stream])
    with 1 [OF Some pr [symmetric]] cat [OF r] show ?thesis by simp
  qed
qed

lemma first_line_newline:
  assumes "CHR ''\<newline>'' \<notin> set xs"
  shows "first_line (xs @ CHR ''\<newline>'' # rest) = (xs @ [CHR ''\<newline>''], rest)"
  using assms by (induction xs) (auto simp add: first_line_Cons)

lemma fgets_read_prefix:
  assumes "CHR ''\<newline>'' \<notin> set xs"
  shows "fgets_read (length xs) (xs @ ys) = (xs, ys)"
  using assms by (induction xs) auto

lemma trace_reads_Nil: "trace_reads [] = []"
  by (simp add: trace_reads.simps [of "[]"] fgets_def)

lemma scan_example_long:
  "scan_hex (c_string_at 3 (fgets_store '' L 10,1\<newline>'' buf)) = Some 16"
  by (simp add: scan_hex_def c_string_at_def fgets_store_def NUL_def hex_digit_def)

lemma example_long_line_reads:
  "trace_reads example_long_line = [CHR ''I'' # replicate 998 CHR '' '', '' L 10,1\<newline>'']"
proof -
  let ?piece = "CHR ''I'' # replicate 998 CHR '' ''"
  have "CHR ''\<newline>'' \<notin> set ?piece" by simp
  from fgets_read_prefix [OF this, of "'' L 10,1\<newline>''"]
  have "fgets_read 999 example_long_line = (?piece, '' L 10,1\<newline>'')"
    by (simp add: example_long_line_def)
  then have "fgets 1000 example_long_line = Some (?piece, '' L 10,1\<newline>'')"
    by (simp add: fgets_def example_long_line_def)
  then have one: "trace_reads example_long_line = ?piece # trace_reads '' L 10,1\<newline>''"
    by (simp add: trace_reads.simps [of example_long_line])
  have "first_line '' L 10,1\<newline>'' = ('' L 10,1\<newline>'', [])"
    by (simp add: first_line_Cons first_line_Nil)
  from trace_reads_first_line [OF _ this]
  have "trace_reads '' L 10,1\<newline>'' = ['' L 10,1\<newline>'']"
    by (simp add: trace_reads_Nil)
  with one show ?thesis by simp
qed

text \<open>
  Claim C8.  A line of the trace file of at most 999 characters, its newline included,
  is what one call of \<^verbatim>\<open>fgets\<close> returns, and it is serviced exactly when its second
  character is \<^verbatim>\<open>L\<close>, \<^verbatim>\<open>S\<close> or \<^verbatim>\<open>M\<close>: then \<^verbatim>\<open>accessData\<close> is called on the
  parsed address, once or twice.  Any other such line (one that starts with \<^verbatim>\<open>I\<close>,
  say) changes neither the globals (the counters and the cache) nor \<^verbatim>\<open>addr\<close>, raises
  nothing, and the replay goes on with the rest of the file.

  The bound on the length is needed.  \<^verbatim>\<open>fgets\<close> returns a longer line in pieces of 999
  characters and the test of the second character is made on each piece:
  \<open>example_long_line\<close> is one line whose second character is a blank, and its replay
  counts a miss for the load that its last 8 characters spell.
\<close>

theorem trace_line_serviced_iff:
  assumes "stream \<noteq> []" and "first_line stream = (line, rest)" and "length line \<le> 999"
  shows "trace_reads stream = line # trace_reads rest \<and>
         (recognised line \<longrightarrow>
            replay_line scan line (buf, addr, g) =
              (case accessData_seq (replicate (accesses_of line) (parsed_addr scan line buf addr)) g of
                 Inl e \<Rightarrow> Inl e
               | Inr g' \<Rightarrow> Inr (fgets_store line buf, parsed_addr scan line buf addr, g')) \<and>
            0 < accesses_of line \<and>
            replay_lines scan (trace_reads stream) (buf, addr, g) =
              (case accessData_seq (replicate (accesses_of line) (parsed_addr scan line buf addr)) g of
                 Inl e \<Rightarrow> Inl e
               | Inr g' \<Rightarrow>
                   replay_lines scan (trace_reads rest)
                     (fgets_store line buf, parsed_addr scan line buf addr, g'))) \<and>
         (\<not> recognised line \<longrightarrow>
            replay_line scan line (buf, addr, g) = Inr (fgets_store line buf, addr, g) \<and>
            replay_lines scan (trace_reads stream) (buf, addr, g) =
              replay_lines scan (trace_reads rest) (fgets_store line buf, addr, g))"
proof -
  note reads = trace_reads_first_line [OF assms]
  from first_line_nonempty [OF assms(1,2)] have ne: "line \<noteq> []" .
  show ?thesis
  proof (cases "recognised line")
    case True
    then have "0 < accesses_of line" by (simp add: accesses_of_def)
    with True reads replay_line_service [OF ne True, of scan buf addr g] show ?thesis
      by (simp split: sum.splits)
  next
    case False
    with reads replay_line_skip [OF ne False, of scan buf addr g] show ?thesis by simp
  qed
qed


theorem trace_line_serviced_iff_witness:
  "first_line ''I 4,1\<newline> M 8,1\<newline>'' = (''I 4,1\<newline>'', '' M 8,1\<newline>'') \<and>
   first_line '' M 8,1\<newline>'' = ('' M 8,1\<newline>'', []) \<and>
   \<not> recognised ''I 4,1\<newline>'' \<and> recognised '' M 8,1\<newline>'' \<and>
   trace_reads ''I 4,1\<newline> M 8,1\<newline>'' = [''I 4,1\<newline>'', '' M 8,1\<newline>''] \<and>
   replay_line scan_hex ''I 4,1\<newline>'' ([], 0, example_fresh) =
     Inr (fgets_store ''I 4,1\<newline>'' [], 0, example_fresh) \<and>
   replay_lines scan_hex (trace_reads ''I 4,1\<newline> M 8,1\<newline>'') ([], 0, example_fresh) =
     Inr (fgets_store '' M 8,1\<newline>'' (fgets_store ''I 4,1\<newline>'' []), 8, example_fresh
       \<lparr>cache := [[\<lparr>valid = True, tag = 2\<rparr>, empty_line], [empty_line, empty_line]],
        hit_count := 1, miss_count := 1\<rparr>)"
proof -
  have f1: "first_line ''I 4,1\<newline> M 8,1\<newline>'' = (''I 4,1\<newline>'', '' M 8,1\<newline>'')"
    and f2: "first_line '' M 8,1\<newline>'' = ('' M 8,1\<newline>'', [])"
    by (simp_all add: first_line_Cons first_line_Nil)
  have n1: "''I 4,1\<newline> M 8,1\<newline>'' \<noteq> []" and n2: "'' M 8,1\<newline>'' \<noteq> []" by simp_all
  have l1: "length ''I 4,1\<newline>'' \<le> 999" and l2: "length '' M 8,1\<newline>'' \<le> 999" by simp_all
  have run: "accessData_seq [8, 8] example_fresh =
      Inr (example_fresh
       \<lparr>cache := [[\<lparr>valid = True, tag = 2\<rparr>, empty_line], [empty_line, empty_line]],
        hit_count := 1, miss_count := 1\<rparr>)"
    by (simp add: accessData_def decode_def set_mask_def example_fresh_def
      empty_line_def hit_loop.simps miss_fill_def scan_open.simps)
  from trace_line_serviced_iff [OF n1 f1 l1, of scan_hex "[]" 0 example_fresh]
    trace_line_serviced_iff [OF n2 f2 l2, of scan_hex "fgets_store ''I 4,1\<newline>'' []" 0 example_fresh]
    recognised_examples run f1 f2
  show ?thesis
    by (simp add: accesses_of_def parsed_addr_def scan_examples replicate_one_two trace_reads_Nil)
qed

theorem trace_line_serviced_iff_counterexample:
  "first_line example_long_line = (example_long_line, []) \<and>
   length example_long_line = 1007 \<and>
   \<not> recognised example_long_line \<and>
   trace_reads example_long_line =
     [CHR ''I'' # replicate 998 CHR '' '', '' L 10,1\<newline>''] \<and>
   replayTrace scan_hex [] (Some (trace_reads example_long_line)) example_fresh =
     Inr (example_fresh
       \<lparr>cache := [[\<lparr>valid = True, tag = 4\<rparr>, empty_line], [empty_line, empty_line]],
        miss_count := 1\<rparr>)"
proof -
  have "CHR ''\<newline>'' \<notin> set (CHR ''I'' # replicate 998 CHR '' '' @ '' L 10,1'')" by simp
  from first_line_newline [OF this, of "[]"]
  have f: "first_line example_long_line = (example_long_line, [])"
    by (simp add: example_long_line_def)
  have l: "length example_long_line = 1007" by (simp add: example_long_line_def)
  have r: "\<not> recognised example_long_line"
    by (simp add: recognised_def example_long_line_def nth_append)
  have n1: "CHR ''I'' # replicate 998 CHR '' '' \<noteq> []" and n2: "'' L 10,1\<newline>'' \<noteq> []"
    by simp_all
  have r1: "\<not> recognised (CHR ''I'' # replicate 998 CHR '' '')"
    and r2: "recognised '' L 10,1\<newline>''"
    by (simp_all add: recognised_def)
  have run: "accessData_seq [16] example_fresh =
      Inr (example_fresh
       \<lparr>cache := [[\<lparr>valid = True, tag = 4\<rparr>, empty_line], [empty_line, empty_line]],
        miss_count := 1\<rparr>)"
    by (simp add: accessData_def decode_def set_mask_def example_fresh_def
      empty_line_def hit_loop.simps miss_fill_def scan_open.simps)
  have "replayTrace scan_hex [] (Some (trace_reads example_long_line)) example_fresh =
     Inr (example_fresh
       \<lparr>cache := [[\<lparr>valid = True, tag = 4\<rparr>, empty_line], [empty_line, empty_line]],
        miss_count := 1\<rparr>)"
    unfolding example_long_line_reads replayTrace_def
    using run r2
    by (simp add: replay_line_skip [OF n1 r1] replay_line_service [OF n2 r2]
        accesses_of_def parsed_addr_def scan_example_long replicate_one_two)
  with f l r example_long_line_reads show ?thesis by simp
qed

section \<open>Filling a set and the first eviction\<close>

lemma fill_set:
  assumes "1 \<le> cfg_E g" "0 \<le> s_bits" "s_bits < int (length (cache g))"
    and "int (length (cache g ! nat s_bits)) = cfg_E g"
    and "map (decode (cfg_s g) (cfg_b g)) as = map (\<lambda>t. Inr (s_bits, t)) ts"
    and "distinct ts" "set ts \<inter> set (valid_tags (cache g ! nat s_bits)) = {}"
    and "length (valid_tags (cache g ! nat s_bits)) + length ts \<le> nat (cfg_E g)"
  shows "\<exists>g1. accessData_seq as g = Inr g1 \<and>
      hit_count g1 = hit_count g \<and> miss_count g1 = miss_count g + word_of_nat (length as) \<and>
      eviction_count g1 = eviction_count g \<and>
      valid_tags (cache g1 ! nat s_bits) = rev ts @ valid_tags (cache g ! nat s_bits) \<and>
      cfg_s g1 = cfg_s g \<and> cfg_b g1 = cfg_b g \<and> cfg_E g1 = cfg_E g \<and>
      length (cache g1) = length (cache g) \<and>
      length (cache g1 ! nat s_bits) = length (cache g ! nat s_bits)"
  using assms
proof (induction as arbitrary: g ts)
  case Nil
  then show ?case by simp
next
  case (Cons a as)
  from Cons.prems(5) obtain t ts' where ts: "ts = t # ts'"
    and dec: "decode (cfg_s g) (cfg_b g) a = Inr (s_bits, t)"
    and rest: "map (decode (cfg_s g) (cfg_b g)) as = map (\<lambda>t. Inr (s_bits, t)) ts'"
    by (cases ts) auto
  let ?xs = "cache g ! nat s_bits"
  from Cons.prems(7) ts have notin: "t \<notin> set (valid_tags ?xs)" by auto
  from Cons.prems(8) ts have room: "length (valid_tags ?xs) < nat (cfg_E g)" by simp
  from Cons.prems(1) dec Cons.prems(2,3,4)
  obtain ys hit ev where
    run: "accessData a g = Inr (count_access (hit, ev) (g\<lparr>cache := (cache g)[nat s_bits := ys]\<rparr>))"
    and lru: "lru_access (nat (cfg_E g)) t (valid_tags ?xs) =
       (if hit then Hit else if ev then MissEvict else MissClean, valid_tags ys)"
    and len: "length ys = length ?xs"
    by (rule accessData_step)
  from notin room have "lru_access (nat (cfg_E g)) t (valid_tags ?xs) = (MissClean, t # valid_tags ?xs)"
    by (simp add: lru_access_def)
  with lru have hit: "\<not> hit" "\<not> ev" and ys: "valid_tags ys = t # valid_tags ?xs"
    by (auto split: if_splits)
  let ?g1 = "count_access (hit, ev) (g\<lparr>cache := (cache g)[nat s_bits := ys]\<rparr>)"
  from Cons.prems(2,3) have sel: "cache ?g1 ! nat s_bits = ys" by simp
  have "\<exists>g2. accessData_seq as ?g1 = Inr g2 \<and>
      hit_count g2 = hit_count ?g1 \<and> miss_count g2 = miss_count ?g1 + word_of_nat (length as) \<and>
      eviction_count g2 = eviction_count ?g1 \<and>
      valid_tags (cache g2 ! nat s_bits) = rev ts' @ valid_tags (cache ?g1 ! nat s_bits) \<and>
      cfg_s g2 = cfg_s ?g1 \<and> cfg_b g2 = cfg_b ?g1 \<and> cfg_E g2 = cfg_E ?g1 \<and>
      length (cache g2) = length (cache ?g1) \<and>
      length (cache g2 ! nat s_bits) = length (cache ?g1 ! nat s_bits)"
  proof (rule Cons.IH)
    show "1 \<le> cfg_E ?g1" using Cons.prems(1) by simp
    show "0 \<le> s_bits" by fact
    show "s_bits < int (length (cache ?g1))" using Cons.prems(3) by simp
    show "int (length (cache ?g1 ! nat s_bits)) = cfg_E ?g1"
      unfolding sel using len Cons.prems(4) by simp
    show "map (decode (cfg_s ?g1) (cfg_b ?g1)) as = map (\<lambda>t. Inr (s_bits, t)) ts'"
      using rest by simp
    show "distinct ts'" using Cons.prems(6) ts by simp
    show "set ts' \<inter> set (valid_tags (cache ?g1 ! nat s_bits)) = {}"
      unfolding sel ys using Cons.prems(6,7) ts by auto
    show "length (valid_tags (cache ?g1 ! nat s_bits)) + length ts' \<le> nat (cfg_E ?g1)"
      unfolding sel ys using Cons.prems(8) ts by simp
  qed
  then obtain g2 where g2: "accessData_seq as ?g1 = Inr g2"
      "hit_count g2 = hit_count ?g1" "miss_count g2 = miss_count ?g1 + word_of_nat (length as)"
      "eviction_count g2 = eviction_count ?g1"
      "valid_tags (cache g2 ! nat s_bits) = rev ts' @ valid_tags (cache ?g1 ! nat s_bits)"
      "cfg_s g2 = cfg_s ?g1" "cfg_b g2 = cfg_b ?g1" "cfg_E g2 = cfg_E ?g1"
      "length (cache g2) = length (cache ?g1)"
      "length (cache g2 ! nat s_bits) = length (cache ?g1 ! nat s_bits)"
    by blast
  have "accessData_seq (a # as) g = Inr g2" using run g2(1) by simp
  moreover have "hit_count g2 = hit_count g" "eviction_count g2 = eviction_count g"
    "miss_count g2 = miss_count g + word_of_nat (length (a # as))"
    using g2(2,3,4) hit by (simp_all add: count_access_counters)
  moreover have "valid_tags (cache g2 ! nat s_bits) = rev ts @ valid_tags ?xs"
    using g2(5) unfolding sel ys ts by simp
  moreover have "cfg_s g2 = cfg_s g" "cfg_b g2 = cfg_b g" "cfg_E g2 = cfg_E g"
    "length (cache g2) = length (cache g)" "length (cache g2 ! nat s_bits) = length ?xs"
    using g2(6,7,8,9,10) len unfolding sel by simp_all
  ultimately show ?case by blast
qed

text \<open>
  Claim C7, as the code has it.  On the cache that \<^verbatim>\<open>initCache\<close> builds for
  \<open>1 \<le> E\<close>, \<open>E\<close> accesses whose addresses decode to the same set with pairwise
  different tags are \<open>E\<close> misses without a hit or an eviction and leave the set holding
  their tags, the latest first; one more access to that set with yet another tag is one
  more miss and one eviction, and the tag that leaves the set is the one accessed first,
  the least recently touched.
\<close>

theorem capacity_eviction:
  assumes E: "1 \<le> cfg_E g0" and init: "initCache g0 = Inr g"
    and same_set: "map (decode (cfg_s g) (cfg_b g)) (as @ [a]) = map (\<lambda>t. Inr (s_bits, t)) (ts @ [t])"
    and range: "0 \<le> s_bits" "s_bits < int (length (cache g))"
    and n: "int (length as) = cfg_E g"
    and dist: "distinct (ts @ [t])"
  shows "\<exists>g1 g2. accessData_seq as g = Inr g1 \<and> accessData a g1 = Inr g2 \<and>
      hit_count g1 = hit_count g \<and> miss_count g1 = miss_count g + word_of_nat (length as) \<and>
      eviction_count g1 = eviction_count g \<and>
      valid_tags (cache g1 ! nat s_bits) = rev ts \<and>
      hit_count g2 = hit_count g1 \<and> miss_count g2 = miss_count g1 + 1 \<and>
      eviction_count g2 = eviction_count g1 + 1 \<and>
      valid_tags (cache g2 ! nat s_bits) = t # rev (tl ts)"
proof -
  from same_set have lens: "length as = length ts"
    by (metis length_append_singleton length_map nat.inject)
  with same_set have decs: "map (decode (cfg_s g) (cfg_b g)) as = map (\<lambda>t. Inr (s_bits, t)) ts"
    and dec: "decode (cfg_s g) (cfg_b g) a = Inr (s_bits, t)" by simp_all
  from initCache_Inr [OF init] have Eg: "cfg_E g = cfg_E g0"
    and c: "cache g = replicate (if cfg_s g0 < 0 then 0 else 2 ^ nat (cfg_s g0))
       (replicate (Suc (nat (cfg_E g0 - 1))) empty_line)" by simp_all
  from range have "nat s_bits < length (cache g)" by linarith
  with c have xs: "cache g ! nat s_bits = replicate (Suc (nat (cfg_E g0 - 1))) empty_line"
    by (metis length_replicate nth_replicate)
  with E Eg have len: "int (length (cache g ! nat s_bits)) = cfg_E g" by simp
  have empty: "valid_tags (cache g ! nat s_bits) = []"
    unfolding xs by (rule valid_tags_empty_lines)
  from E Eg have E1: "1 \<le> cfg_E g" by simp
  have "\<exists>g1. accessData_seq as g = Inr g1 \<and>
      hit_count g1 = hit_count g \<and> miss_count g1 = miss_count g + word_of_nat (length as) \<and>
      eviction_count g1 = eviction_count g \<and>
      valid_tags (cache g1 ! nat s_bits) = rev ts @ valid_tags (cache g ! nat s_bits) \<and>
      cfg_s g1 = cfg_s g \<and> cfg_b g1 = cfg_b g \<and> cfg_E g1 = cfg_E g \<and>
      length (cache g1) = length (cache g) \<and>
      length (cache g1 ! nat s_bits) = length (cache g ! nat s_bits)"
    using E1 range len decs
  proof (rule fill_set)
    show "distinct ts" using dist by simp
    show "set ts \<inter> set (valid_tags (cache g ! nat s_bits)) = {}" using empty by simp
    show "length (valid_tags (cache g ! nat s_bits)) + length ts \<le> nat (cfg_E g)"
      using empty lens n by simp
  qed
  then obtain g1 where g1: "accessData_seq as g = Inr g1"
      "hit_count g1 = hit_count g" "miss_count g1 = miss_count g + word_of_nat (length as)"
      "eviction_count g1 = eviction_count g"
      "valid_tags (cache g1 ! nat s_bits) = rev ts"
      "cfg_s g1 = cfg_s g" "cfg_b g1 = cfg_b g" "cfg_E g1 = cfg_E g"
      "length (cache g1) = length (cache g)"
      "length (cache g1 ! nat s_bits) = length (cache g ! nat s_bits)"
    using empty by auto
  have "1 \<le> cfg_E g1" using E1 g1(8) by simp
  moreover have "decode (cfg_s g1) (cfg_b g1) a = Inr (s_bits, t)" using dec g1(6,7) by simp
  moreover note range(1)
  moreover have "s_bits < int (length (cache g1))" using range(2) g1(9) by simp
  moreover have "int (length (cache g1 ! nat s_bits)) = cfg_E g1" using len g1(8,10) by simp
  ultimately obtain ys hit ev where
    run: "accessData a g1 = Inr (count_access (hit, ev) (g1\<lparr>cache := (cache g1)[nat s_bits := ys]\<rparr>))"
    and lru: "lru_access (nat (cfg_E g1)) t (valid_tags (cache g1 ! nat s_bits)) =
       (if hit then Hit else if ev then MissEvict else MissClean, valid_tags ys)"
    by (rule accessData_step)
  from dist have "t \<notin> set (rev ts)" by simp
  moreover from lens n g1(8) have "\<not> length (rev ts) < nat (cfg_E g1)" by simp
  ultimately have "lru_access (nat (cfg_E g1)) t (rev ts) = (MissEvict, t # butlast (rev ts))"
    by (simp add: lru_access_def)
  with lru g1(5) have hit: "\<not> hit" "ev" and ys: "valid_tags ys = t # butlast (rev ts)"
    by (auto split: if_splits)
  have bl: "butlast (rev ts) = rev (tl ts)" by (simp add: butlast_rev)
  let ?g2 = "count_access (hit, ev) (g1\<lparr>cache := (cache g1)[nat s_bits := ys]\<rparr>)"
  from range g1(9) have "cache ?g2 ! nat s_bits = ys" by simp
  with ys bl hit have "hit_count ?g2 = hit_count g1" "miss_count ?g2 = miss_count g1 + 1"
    "eviction_count ?g2 = eviction_count g1 + 1"
    "valid_tags (cache ?g2 ! nat s_bits) = t # rev (tl ts)"
    by (simp_all add: count_access_counters)
  with run g1(1-5) show ?thesis by blast
qed

theorem capacity_eviction_witness:
  "initCache (start_globals 1 2 1) = Inr example_fresh \<and>
   map (decode 1 1) [8, 4, 12] = [Inr (0, 2), Inr (0, 1), Inr (0, 3)] \<and>
   (\<exists>g1 g2. accessData_seq [8, 4] example_fresh = Inr g1 \<and> accessData 12 g1 = Inr g2 \<and>
      hit_count g1 = 0 \<and> miss_count g1 = 2 \<and> eviction_count g1 = 0 \<and>
      valid_tags (cache g1 ! 0) = [1, 2] \<and>
      hit_count g2 = 0 \<and> miss_count g2 = 3 \<and> eviction_count g2 = 1 \<and>
      valid_tags (cache g2 ! 0) = [3, 1])"
proof -
  have h1: "1 \<le> cfg_E (start_globals 1 2 1)" by (simp add: start_globals_def)
  have h2: "initCache (start_globals 1 2 1) = Inr example_fresh"
    by (simp add: start_globals_def initCache_def example_fresh_def eval_nat_numeral)
  have d: "map (decode 1 1) [8, 4, 12] = [Inr (0, 2), Inr (0, 1), Inr (0, 3)]"
    by (simp add: decode_def set_mask_def)
  then have h3: "map (decode (cfg_s example_fresh) (cfg_b example_fresh)) ([8, 4] @ [12]) =
      map (\<lambda>t. Inr (0, t)) ([2, 1] @ [3])"
    by (simp add: example_fresh_def)
  have h4: "(0::int) \<le> 0" by simp
  have h5: "0 < int (length (cache example_fresh))" by (simp add: example_fresh_def)
  have h6: "int (length [8, 4 :: mem_addr_t]) = cfg_E example_fresh" by (simp add: example_fresh_def)
  have h7: "distinct ([2, 1] @ [3 :: mem_addr_t])" by simp
  have cnt: "hit_count example_fresh = 0" "miss_count example_fresh = 0"
    "eviction_count example_fresh = 0" by (simp_all add: example_fresh_def)
  from capacity_eviction [OF h1 h2 h3 h4 h5 h6 h7] h2 d show ?thesis
    by (auto simp add: cnt)
qed

text \<open>
  Claim C7 as stated speaks of distinct addresses.  Two distinct addresses of the same
  block have the same set and the same tag, so the second one hits: with \<open>E = 2\<close>,
  \<open>s = 1\<close>, \<open>b = 1\<close> the addresses 0 and 1 both decode to set 0 and tag 0, and
  accessing them on the fresh cache gives one miss and one hit, not two misses.
\<close>

theorem capacity_eviction_counterexample:
  "initCache (start_globals 1 2 1) = Inr example_fresh \<and> cfg_E example_fresh = 2 \<and>
   (0 :: mem_addr_t) \<noteq> 1 \<and> decode 1 1 0 = Inr (0, 0) \<and> decode 1 1 1 = Inr (0, 0) \<and>
   accessData_seq [0, 1] example_fresh =
     Inr (example_fresh\<lparr>cache := [[\<lparr>valid = True, tag = 0\<rparr>, empty_line], [empty_line, empty_line]],
                         hit_count := 1, miss_count := 1\<rparr>)"
  by (simp add: start_globals_def initCache_def example_fresh_def eval_nat_numeral
      accessData_def decode_def set_mask_def empty_line_def hit_loop.simps miss_fill_def
      scan_open.simps)

section \<open>The width of the set mask\<close>

text \<open>
  When \<open>0 \<le> s\<close>, \<open>0 \<le> b\<close> and \<open>s + b \<le> 31\<close> the index and the tag are those of
  the specification (lemmas \<open>decode_in_range\<close> and \<open>uint_index\<close> above).

  Claim C2.  The mask is computed on \<^verbatim>\<open>int\<close>, so the claim fails for wider geometries.
  With \<open>s = 16\<close> and \<open>b = 16\<close> the mask \<^verbatim>\<open>0xFFFF << 16\<close> does not fit an \<^verbatim>\<open>int\<close>;
  it becomes negative and is sign-extended, every bit from bit 16 up is set, and for the
  address \<^verbatim>\<open>0x100000000\<close> the index is 65536 where the specification has
  \<open>(addr >> 16) mod 2 ^ 16 = 0\<close>.  The cache has 65536 sets, so \<^verbatim>\<open>cache[s_bits]\<close> is
  read past the end of the array.
\<close>

theorem decode_wide_geometry:
  "decode 16 16 0x100000000 = Inr (65536, 1) \<and>
   (uint (0x100000000 :: mem_addr_t) div 2 ^ 16) mod 2 ^ 16 = 0 \<and>
   initCache (start_globals 16 1 16) =
     Inr ((start_globals 16 1 16)\<lparr>cfg_S := 65536, cache := replicate 65536 [empty_line]\<rparr>) \<and>
   accessData 0x100000000
       ((start_globals 16 1 16)\<lparr>cfg_S := 65536, cache := replicate 65536 [empty_line]\<rparr>) =
     Inl Index_out_of_bounds"
  by (simp add: decode_def set_mask_def initCache_def start_globals_def accessData_def)

section \<open>The check of the command line\<close>

text \<open>
  Claim C4, as the code has it.  When the option loop ends with \<^verbatim>\<open>s\<close>, \<^verbatim>\<open>E\<close> or
  \<^verbatim>\<open>b\<close> equal to 0 (the option was not given, or \<^verbatim>\<open>atoi\<close> gave 0) or without a
  trace file, \<^verbatim>\<open>main\<close> prints the usage text and ends without constructing the cache.
\<close>

theorem main_missing_parameter:
  assumes "parse_options argv no_options = Inr opts"
    and "opt_s opts = 0 \<or> opt_E opts = 0 \<or> opt_b opts = 0 \<or> opt_trace_file opts = None"
  shows "Print_usage \<in> set (main scan buf_init fopen_trace argv) \<and>
         Cache_constructed \<notin> set (main scan buf_init fopen_trace argv) \<and>
         (\<exists>n. last (main scan buf_init fopen_trace argv) = Exited n)"
  using assms by (auto simp add: main_def printUsage_def)

theorem main_missing_parameter_witness:
  "parse_options [Opt_s 1, Opt_b 1, Opt_t ''t''] no_options =
     Inr \<lparr>opt_verbosity = 0, opt_s = 1, opt_E = 0, opt_b = 1, opt_trace_file = Some ''t''\<rparr> \<and>
   Print_usage \<in> set (main scan_hex [] (\<lambda>f. Some []) [Opt_s 1, Opt_b 1, Opt_t ''t'']) \<and>
   Cache_constructed \<notin> set (main scan_hex [] (\<lambda>f. Some []) [Opt_s 1, Opt_b 1, Opt_t ''t''])"
proof -
  have h1: "parse_options [Opt_s 1, Opt_b 1, Opt_t ''t''] no_options =
     Inr \<lparr>opt_verbosity = 0, opt_s = 1, opt_E = 0, opt_b = 1, opt_trace_file = Some ''t''\<rparr>"
    by (simp add: no_options_def)
  have h2: "opt_s \<lparr>opt_verbosity = 0, opt_s = 1, opt_E = 0, opt_b = 1, opt_trace_file = Some ''t''\<rparr> = 0
     \<or> opt_E \<lparr>opt_verbosity = 0, opt_s = 1, opt_E = 0, opt_b = 1, opt_trace_file = Some ''t''\<rparr> = 0
     \<or> opt_b \<lparr>opt_verbosity = 0, opt_s = 1, opt_E = 0, opt_b = 1, opt_trace_file = Some ''t''\<rparr> = 0
     \<or> opt_trace_file \<lparr>opt_verbosity = 0, opt_s = 1, opt_E = 0, opt_b = 1, opt_trace_file = Some ''t''\<rparr> = None"
    by simp
  from main_missing_parameter [OF h1 h2, of scan_hex "[]" "\<lambda>f. Some []"] h1 show ?thesis by simp
qed

text \<open>
  Claim C4 as stated also covers negative values and promises a status other than 0.
  The test of \<^verbatim>\<open>main\<close> is \<^verbatim>\<open>== 0\<close>: with \<^verbatim>\<open>-E -1\<close> the cache is constructed and
  the trace replayed, and no usage text appears.  With no option at all the usage text
  is printed by \<^verbatim>\<open>printUsage\<close>, which ends the program with \<^verbatim>\<open>exit(0)\<close> before the
  \<^verbatim>\<open>exit(1)\<close> of \<^verbatim>\<open>main\<close> is reached.
\<close>

theorem main_missing_parameter_counterexample:
  "main scan_hex [] (\<lambda>f. Some []) [Opt_s 1, Opt_E (- 1), Opt_b 1, Opt_t ''t''] =
     [Cache_constructed, Print_summary 0 0 0, Exited 0] \<and>
   main scan_hex [] (\<lambda>f. Some []) [] = [Print_missing_argument, Print_usage, Exited 0]"
  by (simp add: main_def no_options_def initCache_def replayTrace_def printUsage_def)

end
